theory Spec2Isabelle
  imports Complex_Main
begin

section \<open>Values of numpy floating-point arithmetic\<close>

text \<open>
  The two notebooks compute with numpy doubles. numpy does not raise on a division by
  zero or on the mean of an empty array: it warns and yields an infinity or a NaN, and
  every later operation propagates it. The model keeps these special values and takes
  the arithmetic on finite values to be exact (rounding is not modelled). A zero divisor
  always comes from an integer here, so it is the positive zero.
\<close>

datatype npfloat = Fin real | PInf | NInf | NaN

fun np_add :: "npfloat \<Rightarrow> npfloat \<Rightarrow> npfloat" where
  "np_add (Fin a) (Fin b) = Fin (a + b)"
| "np_add (Fin a) PInf = PInf"
| "np_add (Fin a) NInf = NInf"
| "np_add PInf (Fin b) = PInf"
| "np_add NInf (Fin b) = NInf"
| "np_add PInf PInf = PInf"
| "np_add NInf NInf = NInf"
| "np_add PInf NInf = NaN"
| "np_add NInf PInf = NaN"
| "np_add NaN y = NaN"
| "np_add x NaN = NaN"

fun np_mul :: "npfloat \<Rightarrow> npfloat \<Rightarrow> npfloat" where
  "np_mul (Fin a) (Fin b) = Fin (a * b)"
| "np_mul (Fin a) PInf = (if a = 0 then NaN else if 0 < a then PInf else NInf)"
| "np_mul (Fin a) NInf = (if a = 0 then NaN else if 0 < a then NInf else PInf)"
| "np_mul PInf (Fin b) = (if b = 0 then NaN else if 0 < b then PInf else NInf)"
| "np_mul NInf (Fin b) = (if b = 0 then NaN else if 0 < b then NInf else PInf)"
| "np_mul PInf PInf = PInf"
| "np_mul NInf NInf = PInf"
| "np_mul PInf NInf = NInf"
| "np_mul NInf PInf = NInf"
| "np_mul NaN y = NaN"
| "np_mul x NaN = NaN"

fun np_div :: "npfloat \<Rightarrow> npfloat \<Rightarrow> npfloat" where
  "np_div (Fin a) (Fin b) =
     (if b \<noteq> 0 then Fin (a / b)
      else if a = 0 then NaN else if 0 < a then PInf else NInf)"
| "np_div (Fin a) PInf = Fin 0"
| "np_div (Fin a) NInf = Fin 0"
| "np_div PInf (Fin b) = (if 0 \<le> b then PInf else NInf)"
| "np_div NInf (Fin b) = (if 0 \<le> b then NInf else PInf)"
| "np_div PInf PInf = NaN"
| "np_div NInf NInf = NaN"
| "np_div PInf NInf = NaN"
| "np_div NInf PInf = NaN"
| "np_div NaN y = NaN"
| "np_div x NaN = NaN"

text \<open>\<open>np.sign\<close>: the sign of zero is zero, the sign of NaN is NaN.\<close>

fun np_sign :: "npfloat \<Rightarrow> npfloat" where
  "np_sign (Fin a) = Fin (sgn a)"
| "np_sign PInf = Fin 1"
| "np_sign NInf = Fin (- 1)"
| "np_sign NaN = NaN"

text \<open>The comparison \<open>x > 0\<close>: false on NaN.\<close>

fun np_gt0 :: "npfloat \<Rightarrow> bool" where
  "np_gt0 (Fin a) = (0 < a)"
| "np_gt0 PInf = True"
| "np_gt0 NInf = False"
| "np_gt0 NaN = False"

definition np_sum :: "npfloat list \<Rightarrow> npfloat" where
  "np_sum xs = foldl np_add (Fin 0) xs"

text \<open>\<open>np.mean\<close> divides the sum by the number of entries; on an empty array that is 0/0.\<close>

definition np_mean :: "npfloat list \<Rightarrow> npfloat" where
  "np_mean xs = np_div (np_sum xs) (Fin (real (length xs)))"

text \<open>\<open>np.mean\<close> of a boolean array: the number of true entries over the length.\<close>

definition np_mean_bool :: "bool list \<Rightarrow> npfloat" where
  "np_mean_bool bs = np_div (Fin (real (length (filter id bs)))) (Fin (real (length bs)))"

datatype error = ValueError | IndexError


section \<open>The Random-Field Ising simulator (class RFIM)\<close>

text \<open>
  The object's attributes. \<open>S\<close> is an integer array (drawn from \<open>[-1,1]\<close>), \<open>h\<close> an
  array of doubles. The sizes are natural numbers: the constructor raises on a negative one.
\<close>

record rfim =
  rf_J :: real
  rf_F :: real
  rf_N :: nat
  rf_S :: "int list"
  rf_h :: "real list"
  rf_delta :: real

definition pm1 :: "bool \<Rightarrow> int" where
  "pm1 b = (if b then 1 else - 1)"

text \<open>
  \<open>__init__\<close>. The random draws are arguments: \<open>sdraw k\<close> tells whether the \<open>k\<close>-th
  draw of \<open>np.random.choice([-1,1])\<close> is \<open>+1\<close>, \<open>hdraw k\<close> is the \<open>k\<close>-th Laplace sample.
  Both numpy calls raise ValueError on a negative size, the second on a negative scale.
\<close>

definition init_rfim ::
  "real \<Rightarrow> real \<Rightarrow> int \<Rightarrow> real \<Rightarrow> (nat \<Rightarrow> bool) \<Rightarrow> (nat \<Rightarrow> real) \<Rightarrow> error + rfim" where
  "init_rfim J F N delta sdraw hdraw =
     (if N < 0 \<or> delta < 0 then Inl ValueError
      else Inr \<lparr> rf_J = J, rf_F = F, rf_N = nat N,
                 rf_S = map (\<lambda>k. pm1 (sdraw k)) [0..<nat N],
                 rf_h = map hdraw [0..<nat N],
                 rf_delta = delta \<rparr>)"

text \<open>\<open>m\<close>: the average opinion.\<close>

definition rfim_m :: "rfim \<Rightarrow> npfloat" where
  "rfim_m s = np_div (Fin (real_of_int (sum_list (rf_S s)))) (Fin (real (length (rf_S s))))"

text \<open>
  \<open>p\<close>: the local polarization field of agent \<open>i\<close>. The divisor \<open>self.N - 1\<close> is zero
  for a single agent, and the quotient is then NaN (0/0), not an exception.
  The index is one that \<open>range\<close> produces, so it is not negative.
\<close>

definition rfim_p :: "rfim \<Rightarrow> nat \<Rightarrow> error + npfloat" where
  "rfim_p s i =
     (if i < length (rf_S s) then
        (let local_m = np_div (Fin (real_of_int (sum_list (rf_S s) - rf_S s ! i)))
                              (Fin (real (rf_N s) - 1))
         in if i < length (rf_h s)
            then Inr (np_add (np_add (Fin (rf_h s ! i)) (Fin (rf_F s)))
                             (np_mul (Fin (rf_J s)) local_m))
            else Inl IndexError)
      else Inl IndexError)"

text \<open>\<open>flip\<close>: returns the new state and 1 if the agent changed opinion, 0 if not.\<close>

definition flip :: "rfim \<Rightarrow> nat \<Rightarrow> error + (rfim \<times> nat)" where
  "flip s i =
     (if i < length (rf_S s) then
        (case rfim_p s i of
           Inl e \<Rightarrow> Inl e
         | Inr v \<Rightarrow>
            (let should_flip = np_mul (Fin (real_of_int (rf_S s ! i))) (np_sign v)
             in if should_flip = Fin (- 1)
                then Inr (s\<lparr>rf_S := (rf_S s)[i := rf_S s ! i * (- 1)]\<rparr>, 1)
                else Inr (s, 0)))
      else Inl IndexError)"

text \<open>
  \<open>sweep\<close>. The loop is \<open>for i in range(N)\<close>, where \<open>N\<close> is not \<open>self.N\<close> but the
  module-level variable of the notebook (500 there); it is the argument \<open>N_glob\<close>.
  \<open>sweep_loop\<close> is the loop over the remaining indices, with the state and the
  counter \<open>s\<close> of the source (here \<open>c\<close>).
\<close>

fun sweep_loop :: "rfim \<Rightarrow> nat \<Rightarrow> nat list \<Rightarrow> error + (rfim \<times> nat)" where
  "sweep_loop s c [] = Inr (s, c)"
| "sweep_loop s c (i # is) =
     (case flip s i of
        Inl e \<Rightarrow> Inl e
      | Inr (s', d) \<Rightarrow> sweep_loop s' (c + d) is)"

definition sweep :: "int \<Rightarrow> rfim \<Rightarrow> error + (rfim \<times> nat)" where
  "sweep N_glob s = sweep_loop s 0 [0..<nat N_glob]"

text \<open>
  \<open>equilibrate\<close>: sweep, and sweep again while the last sweep flipped somebody.
  The loop has no bound in the source, so the model is a partial function: \<open>None\<close>
  is a run that never ends, \<open>Some (Inl e)\<close> one that raises, \<open>Some (Inr s')\<close> one
  that returns in state \<open>s'\<close>.
\<close>

partial_function (option) equilibrate :: "int \<Rightarrow> rfim \<Rightarrow> (error + rfim) option" where
  "equilibrate N_glob s =
     (case sweep N_glob s of
        Inl e \<Rightarrow> Some (Inl e)
      | Inr (s', flips) \<Rightarrow> if 0 < flips then equilibrate N_glob s' else Some (Inr s'))"

text \<open>
  An instance of the class: the arrays have the length \<open>N\<close> and the opinions are \<open>\<plusminus>1\<close>,
  as the constructor leaves them.
\<close>

definition rfim_wf :: "rfim \<Rightarrow> bool" where
  "rfim_wf s \<longleftrightarrow>
     length (rf_S s) = rf_N s \<and> length (rf_h s) = rf_N s \<and> set (rf_S s) \<subseteq> {- 1, 1}"


text \<open>
  The local field as a real number, for an instance of more than one agent, and the
  energy that a flip lowers: minus the sum of \<open>(h[j] + F) * S[j]\<close>, minus \<open>J\<close> times
  the square of the total opinion over \<open>2 (N - 1)\<close>. \<open>below s\<close> is the set of the
  opinion arrays of lower energy than the current one.
\<close>

definition local_field :: "rfim \<Rightarrow> nat \<Rightarrow> real" where
  "local_field s i =
     rf_h s ! i + rf_F s
     + rf_J s * (real_of_int (sum_list (rf_S s) - rf_S s ! i) / (real (rf_N s) - 1))"

definition energy :: "rfim \<Rightarrow> real" where
  "energy s =
     - (\<Sum>j<length (rf_S s). (rf_h s ! j + rf_F s) * real_of_int (rf_S s ! j))
     - rf_J s * real_of_int ((sum_list (rf_S s))\<^sup>2) / (2 * (real (rf_N s) - 1))"

definition below :: "rfim \<Rightarrow> int list set" where
  "below s = {c. set c \<subseteq> {- 1, 1} \<and> length c = rf_N s \<and> energy (s\<lparr>rf_S := c\<rparr>) < energy s}"

text \<open>
  With \<open>J = 0\<close> the rule of \<open>flip\<close> gives agent \<open>i\<close> the sign of \<open>h[i] + F\<close>, and
  leaves its opinion as it is where \<open>h[i] + F\<close> is zero.
\<close>

definition decoupled_choice :: "rfim \<Rightarrow> nat \<Rightarrow> int" where
  "decoupled_choice s i =
     (if 0 < rf_h s ! i + rf_F s then 1
      else if rf_h s ! i + rf_F s < 0 then - 1
      else rf_S s ! i)"

text \<open>
  The claim's words "\<open>S[i]\<close> agrees in sign with the local field": both positive or
  both negative.
\<close>

fun np_lt0 :: "npfloat \<Rightarrow> bool" where
  "np_lt0 (Fin a) = (a < 0)"
| "np_lt0 PInf = False"
| "np_lt0 NInf = True"
| "np_lt0 NaN = False"

definition agrees_in_sign :: "int \<Rightarrow> npfloat \<Rightarrow> bool" where
  "agrees_in_sign x v \<longleftrightarrow> (0 < x \<and> np_gt0 v) \<or> (x < 0 \<and> np_lt0 v)"


section \<open>The social-learning simulator (class MarsiliCurty)\<close>

text \<open>
  \<open>S\<close> is an array of doubles (\<open>np.empty(N)\<close>). The sizes are natural numbers: the
  constructor raises on a negative one. \<open>m\<close> is stored as it is given.
\<close>

record marsili_curty =
  mc_N_i :: nat
  mc_N_f :: nat
  mc_N :: nat
  mc_p :: real
  mc_m :: int
  mc_S :: "npfloat list"

text \<open>Python's \<open>int(x)\<close> on a float truncates towards zero.\<close>

definition py_int :: "real \<Rightarrow> int" where
  "py_int x = (if 0 \<le> x then \<lfloor>x\<rfloor> else \<lceil>x\<rceil>)"

text \<open>
  \<open>__init__\<close>. \<open>idraw k\<close> and \<open>fdraw k\<close> tell whether the \<open>k\<close>-th draw for the informed
  agents and for the followers is \<open>+1\<close>. numpy raises ValueError on a negative size,
  on probabilities \<open>[1-p, p]\<close> that are not both non-negative, and when the \<open>N_i\<close> drawn
  values do not fit the slice \<open>S[:N_i]\<close>.
\<close>

definition init_mc ::
  "int \<Rightarrow> real \<Rightarrow> real \<Rightarrow> int \<Rightarrow> (nat \<Rightarrow> bool) \<Rightarrow> (nat \<Rightarrow> bool) \<Rightarrow> error + marsili_curty" where
  "init_mc N z p m idraw fdraw =
     (let N_i = py_int (real_of_int N * z) in
      if N < 0 \<or> p < 0 \<or> 1 < p \<or> N_i < 0 \<or> N < N_i then Inl ValueError
      else Inr \<lparr> mc_N_i = nat N_i, mc_N_f = nat (N - N_i), mc_N = nat N, mc_p = p, mc_m = m,
                 mc_S = map (\<lambda>k. Fin (real_of_int (pm1 (idraw k)))) [0..<nat N_i]
                      @ map (\<lambda>k. Fin (real_of_int (pm1 (fdraw k)))) [0..<nat (N - N_i)] \<rparr>)"

definition compute_q :: "marsili_curty \<Rightarrow> npfloat" where
  "compute_q s = (let followers = drop (mc_N_i s) (mc_S s) in np_mean_bool (map np_gt0 followers))"

definition compute_pi :: "marsili_curty \<Rightarrow> npfloat" where
  "compute_pi s = np_mean_bool (map np_gt0 (mc_S s))"

definition compute_informed :: "marsili_curty \<Rightarrow> npfloat" where
  "compute_informed s = (let informed = take (mc_N_i s) (mc_S s) in np_mean_bool (map np_gt0 informed))"

text \<open>
  The random source. \<open>np.random.randint(low, high)\<close> returns an integer of
  \<open>[low, high)\<close> and raises ValueError when that range is empty; \<open>r\<close> is the raw
  random number it is computed from. \<open>np.random.choice(a, size)\<close> returns \<open>size\<close>
  integers of \<open>[0, a)\<close>, drawn with replacement, from the raw numbers \<open>g 0, g 1, ...\<close>.
\<close>

definition randint :: "nat \<Rightarrow> nat \<Rightarrow> nat \<Rightarrow> error + nat" where
  "randint low high r = (if low < high then Inr (low + r mod (high - low)) else Inl ValueError)"

definition choice :: "nat \<Rightarrow> int \<Rightarrow> (nat \<Rightarrow> nat) \<Rightarrow> error + nat list" where
  "choice a sz g =
     (if a = 0 \<or> sz < 0 then Inl ValueError
      else Inr (map (\<lambda>k. g k mod a) [0..<nat sz]))"

text \<open>\<open>S[group]\<close>: the entries at a list of indices, IndexError if one is out of range.\<close>

definition take_at :: "'a list \<Rightarrow> nat list \<Rightarrow> error + 'a list" where
  "take_at xs js =
     (if list_all (\<lambda>j. j < length xs) js then Inr (map ((!) xs) js) else Inl IndexError)"

text \<open>\<open>time_step\<close>, with the raw random numbers \<open>r\<close> (follower) and \<open>g\<close> (poll group).\<close>

definition time_step :: "marsili_curty \<Rightarrow> nat \<Rightarrow> (nat \<Rightarrow> nat) \<Rightarrow> error + marsili_curty" where
  "time_step s r g =
     (case randint (mc_N_i s) (mc_N s) r of
        Inl e \<Rightarrow> Inl e
      | Inr random_follower \<Rightarrow>
         (case choice (mc_N s) (mc_m s) g of
            Inl e \<Rightarrow> Inl e
          | Inr poll_group \<Rightarrow>
             (case take_at (mc_S s) poll_group of
                Inl e \<Rightarrow> Inl e
              | Inr group_choices \<Rightarrow>
                 (let avg_group_choice = np_mean group_choices in
                  if random_follower < length (mc_S s)
                  then Inr (s\<lparr>mc_S := (mc_S s)[random_follower := np_sign avg_group_choice]\<rparr>)
                  else Inl IndexError))))"

text \<open>
  \<open>iterate\<close>: \<open>T\<close> time steps, recording \<open>q\<close> and \<open>pi\<close> before each. The arrays
  \<open>q\<close> and \<open>pi\<close> are filled in index order, so the model appends to them; step \<open>t\<close>
  uses the raw random numbers \<open>draws t\<close>.
\<close>

fun iterate_loop ::
  "marsili_curty \<Rightarrow> (nat \<Rightarrow> nat \<times> (nat \<Rightarrow> nat)) \<Rightarrow> nat list \<Rightarrow> npfloat list \<Rightarrow> npfloat list
     \<Rightarrow> error + (marsili_curty \<times> npfloat list \<times> npfloat list)" where
  "iterate_loop s draws [] q pi' = Inr (s, q, pi')"
| "iterate_loop s draws (t # ts) q pi' =
     (case time_step s (fst (draws t)) (snd (draws t)) of
        Inl e \<Rightarrow> Inl e
      | Inr s' \<Rightarrow> iterate_loop s' draws ts (q @ [compute_q s]) (pi' @ [compute_pi s]))"

definition iterate_mc ::
  "marsili_curty \<Rightarrow> int \<Rightarrow> (nat \<Rightarrow> nat \<times> (nat \<Rightarrow> nat))
     \<Rightarrow> error + (marsili_curty \<times> npfloat list \<times> npfloat list)" where
  "iterate_mc s T draws =
     (if T < 0 then Inl ValueError else iterate_loop s draws [0..<nat T] [] [])"

text \<open>
  The valid parameters of the specification, and the states the simulator reaches with
  them: after construction and after any number of time steps.
\<close>

definition valid_params :: "int \<Rightarrow> real \<Rightarrow> real \<Rightarrow> int \<Rightarrow> bool" where
  "valid_params N z p m \<longleftrightarrow> 0 < N \<and> 0 \<le> z \<and> z \<le> 1 \<and> 0 < p \<and> p < 1 \<and> 0 < m"

inductive mc_reachable :: "marsili_curty \<Rightarrow> bool" where
  constructed: "valid_params N z p m \<Longrightarrow> init_mc N z p m idraw fdraw = Inr s \<Longrightarrow> mc_reachable s"
| stepped: "mc_reachable s \<Longrightarrow> time_step s r g = Inr s' \<Longrightarrow> mc_reachable s'"


text \<open>
  What holds in every reachable state: the array has the length \<open>N\<close>, the informed
  agents are at most \<open>N\<close>, and every entry is \<open>-1\<close>, \<open>0\<close> or \<open>+1\<close>.
\<close>

definition mc_inv :: "marsili_curty \<Rightarrow> bool" where
  "mc_inv s \<longleftrightarrow>
     length (mc_S s) = mc_N s \<and> mc_N_i s \<le> mc_N s \<and> mc_N_f s = mc_N s - mc_N_i s
     \<and> 0 < mc_N s \<and> 0 < mc_m s \<and> set (mc_S s) \<subseteq> {Fin (- 1), Fin 0, Fin 1}"


section \<open>The self-consistency map (function F\_z of fixed\_point)\<close>

text \<open>
  \<open>F_z\<close> is computed in doubles, and what can be said of it depends on the rounding, so
  here the rounding is part of the model. Every operation on finite values returns
  \<open>rnd\<close> of the exact result: \<open>rnd\<close> is \<open>rd64\<close>, the rounding to the nearest double
  (ties to the even mantissa, gradual underflow, overflow to infinity), for the program,
  and \<open>Fin\<close> (no rounding) for exact arithmetic. Signed zeros are not distinguished.
\<close>

definition round_even :: "real \<Rightarrow> int" where
  "round_even r =
     (let f = \<lfloor>r\<rfloor>
      in if r - of_int f < 1/2 then f
         else if 1/2 < r - of_int f then f + 1
         else if even f then f else f + 1)"

definition rd64 :: "real \<Rightarrow> npfloat" where
  "rd64 x =
     (if 2 ^ 1024 - 2 ^ 970 \<le> \<bar>x\<bar> then (if 0 < x then PInf else NInf)
      else if x = 0 then Fin 0
      else (let e = max \<lfloor>log 2 \<bar>x\<bar>\<rfloor> (- 1022); u = 2 powi (e - 52)
            in Fin (of_int (round_even (x / u)) * u)))"

fun np_neg :: "npfloat \<Rightarrow> npfloat" where
  "np_neg (Fin a) = Fin (- a)"
| "np_neg PInf = NInf"
| "np_neg NInf = PInf"
| "np_neg NaN = NaN"

fun d_add :: "(real \<Rightarrow> npfloat) \<Rightarrow> npfloat \<Rightarrow> npfloat \<Rightarrow> npfloat" where
  "d_add rnd (Fin a) (Fin b) = rnd (a + b)"
| "d_add rnd x y = np_add x y"

fun d_sub :: "(real \<Rightarrow> npfloat) \<Rightarrow> npfloat \<Rightarrow> npfloat \<Rightarrow> npfloat" where
  "d_sub rnd (Fin a) (Fin b) = rnd (a - b)"
| "d_sub rnd x y = np_add x (np_neg y)"

fun d_mul :: "(real \<Rightarrow> npfloat) \<Rightarrow> npfloat \<Rightarrow> npfloat \<Rightarrow> npfloat" where
  "d_mul rnd (Fin a) (Fin b) = rnd (a * b)"
| "d_mul rnd x y = np_mul x y"

text \<open>
  \<open>x ** n\<close> for an integer \<open>n \<ge> 0\<close> is the C library's \<open>pow\<close>, and \<open>binom(m, l)\<close> is
  \<open>scipy.special.binom\<close>: library routines, taken to return the rounded exact value.
  \<open>pow\<close> gives 1 for the exponent 0, also on NaN. (Where the power of a numpy double
  overflows to infinity, that of a Python float raises OverflowError; with \<open>pi\<close> in
  \<open>[0,1]\<close> no power overflows.)
\<close>

fun d_pow :: "(real \<Rightarrow> npfloat) \<Rightarrow> npfloat \<Rightarrow> nat \<Rightarrow> npfloat" where
  "d_pow rnd (Fin a) n = rnd (a ^ n)"
| "d_pow rnd PInf n = (if n = 0 then Fin 1 else PInf)"
| "d_pow rnd NInf n = (if n = 0 then Fin 1 else if even n then PInf else NInf)"
| "d_pow rnd NaN n = (if n = 0 then Fin 1 else NaN)"

definition d_binom :: "(real \<Rightarrow> npfloat) \<Rightarrow> int \<Rightarrow> int \<Rightarrow> npfloat" where
  "d_binom rnd m l = rnd (real (nat m choose nat l))"

text \<open>
  \<open>np.sum\<close> of the list of terms, added from the left. (On arrays of eight and more
  entries numpy adds in another order; the results below on doubles are about two
  terms, about a NaN among the terms, or about equal lists of terms.)
\<close>

definition d_sum :: "(real \<Rightarrow> npfloat) \<Rightarrow> npfloat list \<Rightarrow> npfloat" where
  "d_sum rnd xs = foldl (d_add rnd) (Fin 0) xs"

text \<open>
  The inner function \<open>F_z\<close> of \<open>fixed_point\<close>, with the \<open>z\<close>, \<open>p\<close> and \<open>m\<close> of the
  enclosing call. The range \<open>range((m+1)//2, m+1)\<close> is the integer interval from
  \<open>(m+1) div 2\<close> to \<open>m\<close>; where it is not empty, \<open>m\<close>, \<open>l\<close> and \<open>m - l\<close> are not negative.
\<close>

definition F_z ::
  "(real \<Rightarrow> npfloat) \<Rightarrow> npfloat \<Rightarrow> npfloat \<Rightarrow> int \<Rightarrow> npfloat \<Rightarrow> npfloat" where
  "F_z rnd z p m q =
     (let pi' = d_add rnd (d_mul rnd z p) (d_mul rnd (d_sub rnd (Fin 1) z) q)
      in d_sum rnd
           (map (\<lambda>l. d_mul rnd (d_mul rnd (d_binom rnd m l) (d_pow rnd pi' (nat l)))
                              (d_pow rnd (d_sub rnd (Fin 1) pi') (nat (m - l))))
                [(m + 1) div 2..m]))"

text \<open>
  The specification's reading of \<open>F_z\<close>, on real numbers: the sum over \<open>l\<close> from \<open>\<lceil>m/2\<rceil>\<close> to \<open>m\<close>, and
  the probability that at least \<open>k\<close> of \<open>m\<close> independent Bernoulli draws of parameter
  \<open>x\<close> are positive, as the total weight of the outcomes with at least \<open>k\<close> positive draws.
\<close>

definition F_z_spec :: "real \<Rightarrow> real \<Rightarrow> int \<Rightarrow> real \<Rightarrow> real" where
  "F_z_spec z p m q =
     (let pi' = z * p + (1 - z) * q
      in \<Sum>l = nat \<lceil>real_of_int m / 2\<rceil>..nat m. real (nat m choose l) * pi' ^ l * (1 - pi') ^ (nat m - l))"

definition bern_weight :: "real \<Rightarrow> bool list \<Rightarrow> real" where
  "bern_weight x bs = prod_list (map (\<lambda>b. if b then x else 1 - x) bs)"

definition positives :: "bool list \<Rightarrow> nat" where
  "positives bs = length (filter id bs)"

definition prob_at_least :: "nat \<Rightarrow> nat \<Rightarrow> real \<Rightarrow> real" where
  "prob_at_least k m x =
     sum_list (map (bern_weight x) (filter (\<lambda>bs. k \<le> positives bs) (List.n_lists m [True, False])))"


text \<open>The probability that exactly \<open>l\<close> of the \<open>m\<close> draws are positive.\<close>

definition prob_exactly :: "nat \<Rightarrow> nat \<Rightarrow> real \<Rightarrow> real" where
  "prob_exactly l m x =
     sum_list (map (bern_weight x) (filter (\<lambda>bs. positives bs = l) (List.n_lists m [True, False])))"


section \<open>Concrete runs\<close>

text \<open>Fixed random draws and small instances, on which the definitions are evaluated.\<close>

definition draw_first :: "nat \<Rightarrow> bool" where
  "draw_first k = (k = 0)"

definition draw_up :: "nat \<Rightarrow> bool" where
  "draw_up k = True"

definition raw_id :: "nat \<Rightarrow> nat" where
  "raw_id k = k"

text \<open>Two followers that disagree, polled in pairs: \<open>MarsiliCurty(2, 0, 0.52, 2)\<close>.\<close>

definition mc_tie :: marsili_curty where
  "mc_tie = \<lparr> mc_N_i = 0, mc_N_f = 2, mc_N = 2, mc_p = 0.52, mc_m = 2,
              mc_S = [Fin 1, Fin (- 1)] \<rparr>"

text \<open>A population of one informed agent and no follower: \<open>MarsiliCurty(1, 1, 0.52, 1)\<close>.\<close>

definition mc_full :: marsili_curty where
  "mc_full = \<lparr> mc_N_i = 1, mc_N_f = 0, mc_N = 1, mc_p = 0.52, mc_m = 1, mc_S = [Fin 1] \<rparr>"

text \<open>One informed agent and two followers, polled three at a time.\<close>

definition mc_mixed :: marsili_curty where
  "mc_mixed = \<lparr> mc_N_i = 1, mc_N_f = 2, mc_N = 3, mc_p = 0.52, mc_m = 3,
                mc_S = [Fin 1, Fin 1, Fin (- 1)] \<rparr>"

definition draws_one :: "nat \<Rightarrow> nat \<times> (nat \<Rightarrow> nat)" where
  "draws_one t = (1, raw_id)"

text \<open>Two agents whose local fields vanish: \<open>h = [1, -1]\<close> against the other's opinion.\<close>

definition rf_bal :: rfim where
  "rf_bal = \<lparr> rf_J = 1, rf_F = 0, rf_N = 2, rf_S = [1, - 1], rf_h = [1, - 1], rf_delta = 1 \<rparr>"

text \<open>Two agents that both flip up in the first sweep.\<close>

definition rf_start :: rfim where
  "rf_start = \<lparr> rf_J = 1, rf_F = 0, rf_N = 2, rf_S = [- 1, - 1], rf_h = [2, 1/2], rf_delta = 1 \<rparr>"

text \<open>Two uncoupled agents, and two uncoupled agents without any field.\<close>

definition rf_dec :: rfim where
  "rf_dec = \<lparr> rf_J = 0, rf_F = 1/2, rf_N = 2, rf_S = [- 1, 1], rf_h = [1, - 2], rf_delta = 1 \<rparr>"

definition rf_zero :: rfim where
  "rf_zero = \<lparr> rf_J = 0, rf_F = 0, rf_N = 2, rf_S = [1, - 1], rf_h = [0, 0], rf_delta = 1 \<rparr>"


text \<open>
  The double nearest to 0.52, and two neighbouring doubles near 0.4936.
\<close>

definition p_052 :: real where
  "p_052 = 1170935903116329 / 2 ^ 51"

definition q_lo :: real where
  "q_lo = 4445754190983121 / 2 ^ 53"

definition q_hi :: real where
  "q_hi = 8891508381966243 / 2 ^ 54"


section \<open>Properties of the social-learning simulator\<close>

lemma upt_two: "[0..<2] = [0, Suc 0]"
  by (simp add: upt_rec)

text \<open>
  Claim C1 says that every entry of \<open>S\<close> is \<open>+1\<close> or \<open>-1\<close> after construction and after
  any number of steps. The simulator constructed with \<open>N = 2, z = 0, p = 0.52, m = 2\<close>
  whose two followers start at \<open>+1\<close> and \<open>-1\<close> polls both of them in its first step:
  the mean is zero, \<open>np.sign\<close> of it is zero, and the follower's entry becomes \<open>0\<close>.
\<close>

theorem time_step_tie_writes_zero:
  "valid_params 2 0 0.52 2
   \<and> init_mc 2 0 0.52 2 draw_first draw_first = Inr mc_tie
   \<and> time_step mc_tie 0 raw_id = Inr (mc_tie\<lparr>mc_S := [Fin 0, Fin (- 1)]\<rparr>)"
proof -
  have "valid_params 2 0 0.52 2"
    by (simp add: valid_params_def)
  moreover have "init_mc 2 0 0.52 2 draw_first draw_first = Inr mc_tie"
    by (simp add: init_mc_def py_int_def mc_tie_def draw_first_def pm1_def upt_two)
  moreover have "time_step mc_tie 0 raw_id = Inr (mc_tie\<lparr>mc_S := [Fin 0, Fin (- 1)]\<rparr>)"
    by (simp add: time_step_def randint_def choice_def take_at_def np_mean_def np_sum_def
        mc_tie_def raw_id_def upt_two)
  ultimately show ?thesis by blast
qed

text \<open>A time step writes one entry, at the index of a follower.\<close>

lemma time_step_shape:
  assumes "time_step s r g = Inr s'"
  shows "\<exists>f v. mc_N_i s \<le> f \<and> f < mc_N s \<and> f < length (mc_S s)
               \<and> s' = s\<lparr>mc_S := (mc_S s)[f := v]\<rparr>"
proof -
  let ?f = "mc_N_i s + r mod (mc_N s - mc_N_i s)"
  from assms have lt: "mc_N_i s < mc_N s"
    by (auto simp: time_step_def randint_def split: sum.splits if_splits)
  then have "r mod (mc_N s - mc_N_i s) < mc_N s - mc_N_i s" by simp
  then have rng: "mc_N_i s \<le> ?f \<and> ?f < mc_N s" by linarith
  from assms lt obtain v where "?f < length (mc_S s)" "s' = s\<lparr>mc_S := (mc_S s)[?f := v]\<rparr>"
    by (auto simp: time_step_def randint_def Let_def split: sum.splits if_splits)
  with rng show ?thesis by blast
qed

lemma time_step_informed:
  assumes "time_step s r g = Inr s'"
  shows "take (mc_N_i s) (mc_S s') = take (mc_N_i s) (mc_S s)
         \<and> mc_N_i s' = mc_N_i s \<and> length (mc_S s') = length (mc_S s)"
proof -
  from time_step_shape[OF assms] obtain f v where
    "mc_N_i s \<le> f" and "s' = s\<lparr>mc_S := (mc_S s)[f := v]\<rparr>" by blast
  then show ?thesis by simp
qed

lemma iterate_loop_informed:
  "iterate_loop s draws ts q pi' = Inr (s', q', pi'') \<Longrightarrow>
   take (mc_N_i s) (mc_S s') = take (mc_N_i s) (mc_S s)
   \<and> mc_N_i s' = mc_N_i s \<and> length (mc_S s') = length (mc_S s)"
proof (induction ts arbitrary: s q pi')
  case Nil
  then show ?case by simp
next
  case (Cons t ts)
  from Cons.prems obtain s1 where
    st: "time_step s (fst (draws t)) (snd (draws t)) = Inr s1" and
    rest: "iterate_loop s1 draws ts (q @ [compute_q s]) (pi' @ [compute_pi s]) = Inr (s', q', pi'')"
    by (auto split: sum.splits)
  from time_step_informed[OF st] Cons.IH[OF rest] show ?case by simp
qed

lemma py_int_bounds:
  assumes z: "0 \<le> z" "z \<le> 1" and N: "0 \<le> N"
  shows "0 \<le> py_int (real_of_int N * z) \<and> py_int (real_of_int N * z) \<le> N"
proof -
  have a: "0 \<le> real_of_int N * z" using z N by simp
  have b: "real_of_int N * z \<le> real_of_int N" using z N by (simp add: mult_left_le)
  from a have "py_int (real_of_int N * z) = \<lfloor>real_of_int N * z\<rfloor>" by (simp add: py_int_def)
  moreover from a have "0 \<le> \<lfloor>real_of_int N * z\<rfloor>" by simp
  moreover from b have "\<lfloor>real_of_int N * z\<rfloor> \<le> N" by linarith
  ultimately show ?thesis by simp
qed

lemma init_mc_inv:
  assumes "valid_params N z p m" "init_mc N z p m idraw fdraw = Inr s"
  shows "mc_inv s"
proof -
  let ?Ni = "py_int (real_of_int N * z)"
  from assms(1) have v: "0 < N" "0 \<le> z" "z \<le> 1" "0 < m" by (auto simp: valid_params_def)
  from py_int_bounds[of z N] v have b: "0 \<le> ?Ni" "?Ni \<le> N" by auto
  from assms(2) have s: "s = \<lparr> mc_N_i = nat ?Ni, mc_N_f = nat (N - ?Ni), mc_N = nat N, mc_p = p, mc_m = m,
                 mc_S = map (\<lambda>k. Fin (real_of_int (pm1 (idraw k)))) [0..<nat ?Ni]
                      @ map (\<lambda>k. Fin (real_of_int (pm1 (fdraw k)))) [0..<nat (N - ?Ni)] \<rparr>"
    by (auto simp: init_mc_def Let_def split: if_splits)
  have len: "length (mc_S s) = mc_N s" using b by (simp add: s nat_diff_distrib')
  have ent: "set (mc_S s) \<subseteq> {Fin (- 1), Fin 0, Fin 1}"
    by (auto simp: s pm1_def split: if_splits)
  have "mc_N_f s = mc_N s - mc_N_i s" using b by (simp add: s nat_diff_distrib')
  moreover have "mc_N_i s \<le> mc_N s" using b by (simp add: s)
  moreover have "0 < mc_N s" "0 < mc_m s" using v by (simp_all add: s)
  ultimately show ?thesis using len ent by (simp add: mc_inv_def)
qed

lemma foldl_np_add_fin:
  "\<forall>x \<in> set xs. \<exists>a. x = Fin a \<Longrightarrow> \<exists>b. foldl np_add (Fin c) xs = Fin b"
proof (induction xs arbitrary: c)
  case Nil
  then show ?case by simp
next
  case (Cons x xs)
  then obtain a where "x = Fin a" by auto
  with Cons show ?case by simp
qed

lemma sign_mean_in:
  assumes "xs \<noteq> []" "set xs \<subseteq> {Fin (- 1), Fin 0, Fin 1}"
  shows "np_sign (np_mean xs) \<in> {Fin (- 1), Fin 0, Fin 1}"
proof -
  from assms(2) have "\<forall>x \<in> set xs. \<exists>a. x = Fin a" by auto
  from foldl_np_add_fin[OF this] obtain b where "np_sum xs = Fin b"
    by (auto simp: np_sum_def)
  with assms(1) have "np_mean xs = Fin (b / real (length xs))"
    by (simp add: np_mean_def)
  then show ?thesis by (simp add: sgn_if)
qed

lemma time_step_inv:
  assumes "mc_inv s" "time_step s r g = Inr s'"
  shows "mc_inv s'"
proof -
  from assms(1) have m: "0 < mc_m s" and N: "0 < mc_N s" and len: "length (mc_S s) = mc_N s"
    and ent: "set (mc_S s) \<subseteq> {Fin (- 1), Fin 0, Fin 1}"
    by (auto simp: mc_inv_def)
  let ?grp = "map (\<lambda>k. g k mod mc_N s) [0..<nat (mc_m s)]"
  let ?gc = "map ((!) (mc_S s)) ?grp"
  have ch: "choice (mc_N s) (mc_m s) g = Inr ?grp" using m N by (simp add: choice_def)
  have inr: "\<forall>j \<in> set ?grp. j < length (mc_S s)" using N len by auto
  then have ta: "take_at (mc_S s) ?grp = Inr ?gc" by (simp add: take_at_def list_all_iff)
  have ne: "?gc \<noteq> []" using m by simp
  have sub: "set ?gc \<subseteq> {Fin (- 1), Fin 0, Fin 1}"
  proof
    fix x assume "x \<in> set ?gc"
    then obtain j where "j \<in> set ?grp" "x = mc_S s ! j" by auto
    with inr have "j < length (mc_S s)" by blast
    with \<open>x = mc_S s ! j\<close> have "x \<in> set (mc_S s)" by simp
    with ent show "x \<in> {Fin (- 1), Fin 0, Fin 1}" by blast
  qed
  from sign_mean_in[OF ne sub] have v: "np_sign (np_mean ?gc) \<in> {Fin (- 1), Fin 0, Fin 1}" .
  from assms(2) ch ta obtain f where
    s': "s' = s\<lparr>mc_S := (mc_S s)[f := np_sign (np_mean ?gc)]\<rparr>"
    by (auto simp: time_step_def Let_def split: sum.splits if_splits)
  have "set ((mc_S s)[f := np_sign (np_mean ?gc)]) \<subseteq> insert (np_sign (np_mean ?gc)) (set (mc_S s))"
    by (rule set_update_subset_insert)
  with v ent have "set (mc_S s') \<subseteq> {Fin (- 1), Fin 0, Fin 1}"
    unfolding s' by auto
  with assms(1) show ?thesis by (simp add: mc_inv_def s')
qed

lemma reachable_inv: "mc_reachable s \<Longrightarrow> mc_inv s"
  by (induction rule: mc_reachable.induct) (auto intro: init_mc_inv time_step_inv)

lemma time_step_returns:
  assumes "mc_inv s" "mc_N_i s < mc_N s"
  shows "\<exists>s'. time_step s r g = Inr s'"
proof -
  from assms(1) have m: "0 < mc_m s" and N: "0 < mc_N s" and len: "length (mc_S s) = mc_N s"
    by (auto simp: mc_inv_def)
  let ?f = "mc_N_i s + r mod (mc_N s - mc_N_i s)"
  let ?grp = "map (\<lambda>k. g k mod mc_N s) [0..<nat (mc_m s)]"
  have ri: "randint (mc_N_i s) (mc_N s) r = Inr ?f" using assms(2) by (simp add: randint_def)
  have ch: "choice (mc_N s) (mc_m s) g = Inr ?grp" using m N by (simp add: choice_def)
  have "\<forall>j \<in> set ?grp. j < length (mc_S s)" using N len by auto
  then have ta: "take_at (mc_S s) ?grp = Inr (map ((!) (mc_S s)) ?grp)" by (simp add: take_at_def list_all_iff)
  from assms(2) have "r mod (mc_N s - mc_N_i s) < mc_N s - mc_N_i s" by simp
  then have "?f < length (mc_S s)" using len by linarith
  with ri ch ta show ?thesis by (simp add: time_step_def)
qed

text \<open>
  Claim C4, amended: in every reachable state with at least one follower (\<open>N_i < N\<close>)
  a time step returns, and it has written \<open>S\<close> at one index, which lies in the
  follower range \<open>[N_i, N)\<close>, and changed nothing else; in any state, a time step that
  returns has written one such index and nothing else; and after the \<open>T\<close> time steps of
  \<open>iterate\<close>, for any \<open>T\<close>, the informed entries \<open>S[0..N_i)\<close> are what they were.
\<close>

theorem time_step_writes_one_follower:
  "(mc_reachable s \<and> mc_N_i s < mc_N s \<longrightarrow>
      (\<exists>f v. mc_N_i s \<le> f \<and> f < mc_N s \<and> f < length (mc_S s)
             \<and> time_step s r g = Inr (s\<lparr>mc_S := (mc_S s)[f := v]\<rparr>)))
   \<and> (time_step s r g = Inr s' \<longrightarrow>
      (\<exists>f v. mc_N_i s \<le> f \<and> f < mc_N s \<and> f < length (mc_S s)
             \<and> s' = s\<lparr>mc_S := (mc_S s)[f := v]\<rparr>))
   \<and> (iterate_mc s T draws = Inr (s'', q, pi') \<longrightarrow>
        take (mc_N_i s) (mc_S s'') = take (mc_N_i s) (mc_S s)
        \<and> length (mc_S s'') = length (mc_S s))"
proof -
  have a: "\<exists>f v. mc_N_i s \<le> f \<and> f < mc_N s \<and> f < length (mc_S s)
             \<and> time_step s r g = Inr (s\<lparr>mc_S := (mc_S s)[f := v]\<rparr>)"
    if "mc_reachable s" "mc_N_i s < mc_N s"
  proof -
    from time_step_returns[OF reachable_inv[OF that(1)] that(2), of r g]
    obtain s1 where s1: "time_step s r g = Inr s1" by blast
    from time_step_shape[OF s1] s1 show ?thesis by auto
  qed
  have b: "time_step s r g = Inr s' \<longrightarrow>
      (\<exists>f v. mc_N_i s \<le> f \<and> f < mc_N s \<and> f < length (mc_S s)
             \<and> s' = s\<lparr>mc_S := (mc_S s)[f := v]\<rparr>)"
    using time_step_shape[of s r g s'] by blast
  have c: "iterate_mc s T draws = Inr (s'', q, pi') \<longrightarrow>
        take (mc_N_i s) (mc_S s'') = take (mc_N_i s) (mc_S s)
        \<and> length (mc_S s'') = length (mc_S s)"
    using iterate_loop_informed[of s draws "[0..<nat T]" "[]" "[]" s'' q pi']
    by (auto simp: iterate_mc_def split: if_splits)
  from a b c show ?thesis by blast
qed

lemma mc_mixed_reachable: "mc_reachable mc_mixed"
proof -
  have v: "valid_params 3 0.4 0.52 3" by (simp add: valid_params_def)
  have "[0..<2] = [0, 1]" by (simp add: upt_rec)
  then have i: "init_mc 3 0.4 0.52 3 draw_up draw_first = Inr mc_mixed"
    by (simp add: init_mc_def py_int_def mc_mixed_def draw_first_def draw_up_def pm1_def)
  show ?thesis by (rule mc_reachable.constructed[OF v i])
qed

lemma time_step_mixed:
  "time_step mc_mixed 1 raw_id = Inr (mc_mixed\<lparr>mc_S := [Fin 1, Fin 1, Fin 1]\<rparr>)"
  by (simp add: time_step_def randint_def choice_def take_at_def np_mean_def np_sum_def
        mc_mixed_def raw_id_def upt_rec)

lemma iterate_mixed:
  "iterate_mc mc_mixed 1 draws_one
   = Inr (mc_mixed\<lparr>mc_S := [Fin 1, Fin 1, Fin 1]\<rparr>, [Fin (1/2)], [Fin (2/3)])"
proof -
  have "compute_q mc_mixed = Fin (1/2)" "compute_pi mc_mixed = Fin (2/3)"
    by (simp_all add: compute_q_def compute_pi_def np_mean_bool_def mc_mixed_def)
  with time_step_mixed show ?thesis
    by (simp add: iterate_mc_def draws_one_def)
qed

theorem time_step_writes_one_follower_witness:
  "time_step mc_mixed 1 raw_id = Inr (mc_mixed\<lparr>mc_S := [Fin 1, Fin 1, Fin 1]\<rparr>)
   \<and> iterate_mc mc_mixed 1 draws_one
       = Inr (mc_mixed\<lparr>mc_S := [Fin 1, Fin 1, Fin 1]\<rparr>, [Fin (1/2)], [Fin (2/3)])
   \<and> (\<exists>f v. mc_N_i mc_mixed \<le> f \<and> f < mc_N mc_mixed \<and> f < length (mc_S mc_mixed)
             \<and> mc_mixed\<lparr>mc_S := [Fin 1, Fin 1, Fin 1]\<rparr>
                 = mc_mixed\<lparr>mc_S := (mc_S mc_mixed)[f := v]\<rparr>)
   \<and> take (mc_N_i mc_mixed) (mc_S (mc_mixed\<lparr>mc_S := [Fin 1, Fin 1, Fin 1]\<rparr>))
       = take (mc_N_i mc_mixed) (mc_S mc_mixed)
   \<and> mc_reachable mc_mixed \<and> mc_N_i mc_mixed < mc_N mc_mixed"
  using time_step_mixed iterate_mixed mc_mixed_reachable
    time_step_writes_one_follower[where s = mc_mixed and r = 1 and g = raw_id
      and s' = "mc_mixed\<lparr>mc_S := [Fin 1, Fin 1, Fin 1]\<rparr>" and T = 1 and draws = draws_one
      and s'' = "mc_mixed\<lparr>mc_S := [Fin 1, Fin 1, Fin 1]\<rparr>"
      and q = "[Fin (1/2)]" and pi' = "[Fin (2/3)]"]
  by (simp add: mc_mixed_def)

text \<open>
  Claim C4 as stated fails in a state without followers (\<open>z = 1\<close>): \<open>randint(N_i, N)\<close>
  has an empty range, the time step raises ValueError and writes no index.
\<close>

theorem time_step_without_followers_raises:
  "valid_params 1 1 0.52 1 \<and> init_mc 1 1 0.52 1 draw_up draw_up = Inr mc_full
   \<and> mc_reachable mc_full \<and> time_step mc_full 0 raw_id = Inl ValueError"
proof -
  have v: "valid_params 1 1 0.52 1" by (simp add: valid_params_def)
  have i: "init_mc 1 1 0.52 1 draw_up draw_up = Inr mc_full"
    by (simp add: init_mc_def py_int_def mc_full_def draw_up_def pm1_def)
  have r: "mc_reachable mc_full" by (rule mc_reachable.constructed[OF v i])
  have t: "time_step mc_full 0 raw_id = Inl ValueError"
    by (simp add: time_step_def randint_def mc_full_def)
  from v i r t show ?thesis by blast
qed

lemma filter_le_one:
  "real (length (filter P xs)) / real (length xs) \<le> 1"
proof (cases "xs = []")
  case True then show ?thesis by simp
next
  case False
  have "length (filter P xs) \<le> length xs" by (rule length_filter_le)
  then show ?thesis using False by simp
qed

lemma gt0_is_one:
  assumes "set xs \<subseteq> {Fin (- 1), Fin 0, Fin 1}"
  shows "filter id (map np_gt0 xs) = map np_gt0 (filter (\<lambda>v. v = Fin 1) xs)"
  using assms by (induction xs) auto

text \<open>
  Claim C9, amended: in every reachable state \<open>compute_pi\<close> returns a number of
  \<open>[0,1]\<close>; and if there is at least one follower (\<open>N_i < N\<close>), \<open>compute_q\<close> returns
  the number of follower entries equal to \<open>+1\<close> divided by the number of followers,
  which is a number of \<open>[0,1]\<close>. Both are functions of the state and leave it as it is.
\<close>

theorem accuracies_in_unit_interval:
  assumes "mc_reachable s"
  shows "(\<exists>y. compute_pi s = Fin y \<and> 0 \<le> y \<and> y \<le> 1)
         \<and> (mc_N_i s < mc_N s \<longrightarrow>
              compute_q s = Fin (real (length (filter (\<lambda>v. v = Fin 1) (drop (mc_N_i s) (mc_S s))))
                                 / real (mc_N_f s))
              \<and> (\<exists>x. compute_q s = Fin x \<and> 0 \<le> x \<and> x \<le> 1))"
proof -
  from reachable_inv[OF assms] have inv: "mc_inv s" .
  then have N: "0 < mc_N s" and len: "length (mc_S s) = mc_N s"
    and nf: "mc_N_f s = mc_N s - mc_N_i s"
    and ent: "set (mc_S s) \<subseteq> {Fin (- 1), Fin 0, Fin 1}"
    by (auto simp: mc_inv_def)
  have pi: "compute_pi s = Fin (real (length (filter id (map np_gt0 (mc_S s)))) / real (mc_N s))"
    using N len by (simp add: compute_pi_def np_mean_bool_def)
  have "real (length (filter id (map np_gt0 (mc_S s)))) / real (length (map np_gt0 (mc_S s))) \<le> 1"
    by (rule filter_le_one)
  then have pi1: "real (length (filter id (map np_gt0 (mc_S s)))) / real (mc_N s) \<le> 1"
    using len by simp
  have first: "\<exists>y. compute_pi s = Fin y \<and> 0 \<le> y \<and> y \<le> 1"
    using pi pi1 by simp
  have second: "compute_q s = Fin (real (length (filter (\<lambda>v. v = Fin 1) (drop (mc_N_i s) (mc_S s))))
                                 / real (mc_N_f s))
              \<and> (\<exists>x. compute_q s = Fin x \<and> 0 \<le> x \<and> x \<le> 1)" if lt: "mc_N_i s < mc_N s"
  proof -
    let ?fol = "drop (mc_N_i s) (mc_S s)"
    have flen: "length ?fol = mc_N_f s" using len nf by simp
    have fpos: "0 < mc_N_f s" using lt nf by simp
    have fent: "set ?fol \<subseteq> {Fin (- 1), Fin 0, Fin 1}"
      using ent set_drop_subset[of "mc_N_i s" "mc_S s"] by blast
    have cnt: "length (filter id (map np_gt0 ?fol)) = length (filter (\<lambda>v. v = Fin 1) ?fol)"
      by (simp add: gt0_is_one[OF fent])
    have q: "compute_q s = Fin (real (length (filter (\<lambda>v. v = Fin 1) ?fol)) / real (mc_N_f s))"
      using fpos flen cnt by (simp add: compute_q_def np_mean_bool_def Let_def)
    have "real (length (filter (\<lambda>v. v = Fin 1) ?fol)) / real (length ?fol) \<le> 1"
      by (rule filter_le_one)
    then have "real (length (filter (\<lambda>v. v = Fin 1) ?fol)) / real (mc_N_f s) \<le> 1"
      using flen by simp
    with q show ?thesis by simp
  qed
  from first second show ?thesis by blast
qed

lemma mc_tie_reachable: "mc_reachable mc_tie"
proof -
  have v: "valid_params 2 0 0.52 2" by (simp add: valid_params_def)
  have i: "init_mc 2 0 0.52 2 draw_first draw_first = Inr mc_tie"
    by (simp add: init_mc_def py_int_def mc_tie_def draw_first_def pm1_def upt_two)
  show ?thesis by (rule mc_reachable.constructed[OF v i])
qed

theorem accuracies_in_unit_interval_witness:
  "mc_reachable mc_tie \<and> mc_N_i mc_tie < mc_N mc_tie
   \<and> compute_pi mc_tie = Fin (1/2) \<and> compute_q mc_tie = Fin (1/2)"
proof -
  have lt: "mc_N_i mc_tie < mc_N mc_tie" by (simp add: mc_tie_def)
  have "length (filter (\<lambda>v. v = Fin 1) (drop (mc_N_i mc_tie) (mc_S mc_tie))) = 1" "mc_N_f mc_tie = 2"
    by (simp_all add: mc_tie_def)
  with accuracies_in_unit_interval[OF mc_tie_reachable] lt have "compute_q mc_tie = Fin (1/2)" by simp
  moreover have "compute_pi mc_tie = Fin (1/2)" by (simp add: compute_pi_def np_mean_bool_def mc_tie_def)
  ultimately show ?thesis using mc_tie_reachable lt by blast
qed

text \<open>
  Claim C9 as stated fails when every agent is informed (\<open>z = 1\<close>): the array of
  followers is empty and its mean is NaN.
\<close>

theorem compute_q_without_followers_is_nan:
  "valid_params 1 1 0.52 1 \<and> init_mc 1 1 0.52 1 draw_up draw_up = Inr mc_full
   \<and> mc_reachable mc_full \<and> compute_q mc_full = NaN"
proof -
  have v: "valid_params 1 1 0.52 1" by (simp add: valid_params_def)
  have i: "init_mc 1 1 0.52 1 draw_up draw_up = Inr mc_full"
    by (simp add: init_mc_def py_int_def mc_full_def draw_up_def pm1_def)
  have r: "mc_reachable mc_full" by (rule mc_reachable.constructed[OF v i])
  have q: "compute_q mc_full = NaN"
    by (simp add: compute_q_def mc_full_def np_mean_bool_def)
  from v i r q show ?thesis by blast
qed


section \<open>Properties of the Random-Field Ising simulator\<close>

lemma sum_list_nth: "sum_list xs = (\<Sum>j<length xs. xs ! j)" for xs :: "int list"
  by (simp add: sum_list_sum_nth atLeast0LessThan)

lemma sum_update:
  fixes f :: "nat \<Rightarrow> 'a \<Rightarrow> 'b::ab_group_add"
  assumes "i < length xs"
  shows "(\<Sum>j<length xs. f j (xs[i := v] ! j)) = (\<Sum>j<length xs. f j (xs ! j)) - f i (xs ! i) + f i v"
proof -
  have fin: "finite {..<length xs}" and mem: "i \<in> {..<length xs}" using assms by auto
  have "(\<Sum>j<length xs. f j (xs[i := v] ! j))
        = f i (xs[i := v] ! i) + (\<Sum>j \<in> {..<length xs} - {i}. f j (xs[i := v] ! j))"
    by (rule sum.remove[OF fin mem])
  also have "(\<Sum>j \<in> {..<length xs} - {i}. f j (xs[i := v] ! j)) = (\<Sum>j \<in> {..<length xs} - {i}. f j (xs ! j))"
    by (rule sum.cong) auto
  also have "f i (xs[i := v] ! i) = f i v" using assms by simp
  finally have a: "(\<Sum>j<length xs. f j (xs[i := v] ! j)) = f i v + (\<Sum>j \<in> {..<length xs} - {i}. f j (xs ! j))" .
  have b: "(\<Sum>j<length xs. f j (xs ! j)) = f i (xs ! i) + (\<Sum>j \<in> {..<length xs} - {i}. f j (xs ! j))"
    by (rule sum.remove[OF fin mem])
  from a b show ?thesis by simp
qed

lemma sum_list_flip:
  fixes xs :: "int list"
  assumes "i < length xs"
  shows "sum_list (xs[i := - (xs ! i)]) = sum_list xs - 2 * (xs ! i)"
proof -
  have "sum_list (xs[i := - (xs ! i)]) = (\<Sum>j<length xs. (xs[i := - (xs ! i)]) ! j)"
    using sum_list_nth[of "xs[i := - (xs ! i)]"] by simp
  also have "\<dots> = (\<Sum>j<length xs. xs ! j) - xs ! i + - (xs ! i)"
    using sum_update[OF assms, of "\<lambda>j x. x" "- (xs ! i)"] by simp
  finally show ?thesis by (simp add: sum_list_nth)
qed

text \<open>The constructor makes an instance, and a sweep keeps it one: opinions stay \<open>\<plusminus>1\<close>.\<close>

lemma init_rfim_wf: "init_rfim J F N delta sdraw hdraw = Inr s \<Longrightarrow> rfim_wf s"
  by (auto simp: init_rfim_def rfim_wf_def pm1_def split: if_splits)

lemma wf_entry: "rfim_wf s \<Longrightarrow> i < rf_N s \<Longrightarrow> rf_S s ! i = 1 \<or> rf_S s ! i = - 1"
proof -
  assume w: "rfim_wf s" and i: "i < rf_N s"
  then have "rf_S s ! i \<in> set (rf_S s)" by (simp add: rfim_wf_def)
  with w show ?thesis by (auto simp: rfim_wf_def)
qed

lemma rfim_p_single:
  assumes "rfim_wf s" "rf_N s = 1" "i < rf_N s"
  shows "rfim_p s i = Inr NaN"
proof -
  from assms have i0: "i = 0" and len: "length (rf_S s) = 1" "length (rf_h s) = 1"
    by (auto simp: rfim_wf_def)
  from len(1) obtain x where S: "rf_S s = [x]" by (cases "rf_S s") auto
  show ?thesis using assms(2) len by (simp add: rfim_p_def i0 S)
qed

lemma rfim_p_many:
  assumes "rfim_wf s" "rf_N s \<noteq> 1" "i < rf_N s"
  shows "rfim_p s i = Inr (Fin (local_field s i))"
proof -
  from assms have "real (rf_N s) - 1 \<noteq> 0" by simp
  with assms show ?thesis by (simp add: rfim_p_def local_field_def rfim_wf_def)
qed

lemma flip_single:
  assumes "rfim_wf s" "rf_N s = 1" "i < rf_N s"
  shows "flip s i = Inr (s, 0)"
  using rfim_p_single[OF assms] assms by (simp add: flip_def rfim_wf_def)

lemma flip_many:
  assumes "rfim_wf s" "rf_N s \<noteq> 1" "i < rf_N s"
  shows "flip s i =
           (if real_of_int (rf_S s ! i) * sgn (local_field s i) = - 1
            then Inr (s\<lparr>rf_S := (rf_S s)[i := - (rf_S s ! i)]\<rparr>, 1) else Inr (s, 0))"
  using rfim_p_many[OF assms] assms by (simp add: flip_def rfim_wf_def)

lemma energy_algebra:
  fixes a J M2 xM d :: real
  assumes "d \<noteq> 0"
  shows "2 * a - J * (M2 - 4 * xM + 4) / (2 * d) + J * M2 / (2 * d) = 2 * (a + J * ((xM - 1) / d))"
proof -
  have "J * (M2 - 4 * xM + 4) / (2 * d) = J * M2 / (2 * d) - 2 * (J * ((xM - 1) / d))"
    using assms by (simp add: field_simps)
  then show ?thesis by simp
qed

lemma energy_flip:
  assumes w: "rfim_wf s" and n1: "rf_N s \<noteq> 1" and i: "i < rf_N s"
  shows "energy (s\<lparr>rf_S := (rf_S s)[i := - (rf_S s ! i)]\<rparr>) - energy s
         = 2 * (real_of_int (rf_S s ! i) * local_field s i)"
proof -
  let ?S = "rf_S s" and ?x = "rf_S s ! i"
  let ?M = "sum_list (rf_S s)"
  define d where "d = real (rf_N s) - 1"
  define a where "a = (rf_h s ! i + rf_F s) * real_of_int ?x"
  define M2 where "M2 = real_of_int (?M\<^sup>2)"
  define xM where "xM = real_of_int (?x * ?M)"
  from w i have il: "i < length ?S" by (simp add: rfim_wf_def)
  from n1 i have d: "d \<noteq> 0" by (simp add: d_def)
  have xx: "?x * ?x = 1" using wf_entry[OF w i] by auto
  have A: "(\<Sum>j<length ?S. (rf_h s ! j + rf_F s) * real_of_int (?S[i := - ?x] ! j))
           = (\<Sum>j<length ?S. (rf_h s ! j + rf_F s) * real_of_int (?S ! j)) - 2 * a"
    using sum_update[OF il, of "\<lambda>j x. (rf_h s ! j + rf_F s) * real_of_int x" "- ?x"]
    by (simp add: a_def)
  have "(?M - 2 * ?x)\<^sup>2 = ?M\<^sup>2 - 4 * (?x * ?M) + 4 * (?x * ?x)"
    by (simp add: power2_eq_square algebra_simps)
  then have "(sum_list (?S[i := - ?x]))\<^sup>2 = ?M\<^sup>2 - 4 * (?x * ?M) + 4"
    using sum_list_flip[OF il] xx by simp
  then have M: "real_of_int ((sum_list (?S[i := - ?x]))\<^sup>2) = M2 - 4 * xM + 4"
    by (simp add: M2_def xM_def)
  have e0: "energy s = - (\<Sum>j<length ?S. (rf_h s ! j + rf_F s) * real_of_int (?S ! j))
                       - rf_J s * M2 / (2 * d)"
    by (simp add: energy_def M2_def d_def)
  have e1: "energy (s\<lparr>rf_S := ?S[i := - ?x]\<rparr>)
            = - ((\<Sum>j<length ?S. (rf_h s ! j + rf_F s) * real_of_int (?S ! j)) - 2 * a)
              - rf_J s * (M2 - 4 * xM + 4) / (2 * d)"
    using A M by (simp add: energy_def d_def)
  have "energy (s\<lparr>rf_S := ?S[i := - ?x]\<rparr>) - energy s
        = 2 * a - rf_J s * (M2 - 4 * xM + 4) / (2 * d) + rf_J s * M2 / (2 * d)"
    unfolding e0 e1 by simp
  also have "\<dots> = 2 * (a + rf_J s * ((xM - 1) / d))"
    by (rule energy_algebra[OF d])
  also have "a + rf_J s * ((xM - 1) / d) = real_of_int ?x * local_field s i"
  proof -
    have "?x * (?M - ?x) = ?x * ?M - 1"
      using xx by (simp add: algebra_simps)
    then have "real_of_int ?x * real_of_int (?M - ?x) = xM - 1"
      unfolding xM_def by (metis of_int_1 of_int_diff of_int_mult)
    then have "real_of_int ?x * (real_of_int (?M - ?x) / d) = (xM - 1) / d"
      by (metis times_divide_eq_right)
    then have f1: "real_of_int ?x * (rf_J s * (real_of_int (?M - ?x) / d)) = rf_J s * ((xM - 1) / d)"
      by (metis mult.left_commute)
    have f2: "local_field s i
                   = (rf_h s ! i + rf_F s) + rf_J s * (real_of_int (?M - ?x) / d)"
      by (simp add: local_field_def d_def)
    have f3: "real_of_int ?x * ((rf_h s ! i + rf_F s) + rf_J s * (real_of_int (?M - ?x) / d))
                   = a + real_of_int ?x * (rf_J s * (real_of_int (?M - ?x) / d))"
      unfolding a_def by (rule trans[OF distrib_left]) (simp only: mult.commute)
    show ?thesis unfolding f2 f3 f1 by (rule refl)
  qed
  finally show ?thesis .
qed


lemma flip_index: "flip s i = Inr r \<Longrightarrow> i < length (rf_S s)"
  by (auto simp: flip_def split: if_splits)

lemma flip_step:
  assumes w: "rfim_wf s" and fl: "flip s i = Inr (s', d)"
  shows "rfim_wf s' \<and> s' = s\<lparr>rf_S := rf_S s'\<rparr>
         \<and> ((d = 0 \<and> s' = s) \<or> (d = 1 \<and> energy s' < energy s))"
proof -
  from flip_index[OF fl] w have i: "i < rf_N s" by (simp add: rfim_wf_def)
  show ?thesis
  proof (cases "rf_N s = 1")
    case True
    from flip_single[OF w True i] fl w show ?thesis by simp
  next
    case False
    let ?x = "rf_S s ! i"
    note fm = flip_many[OF w False i]
    show ?thesis
    proof (cases "real_of_int ?x * sgn (local_field s i) = - 1")
      case no: False
      with fm fl w show ?thesis by simp
    next
      case yes: True
      with fm fl have s': "s' = s\<lparr>rf_S := (rf_S s)[i := - ?x]\<rparr>" and d: "d = 1" by simp_all
      have x: "?x = 1 \<or> ?x = - 1" by (rule wf_entry[OF w i])
      have "set ((rf_S s)[i := - ?x]) \<subseteq> insert (- ?x) (set (rf_S s))"
        by (rule set_update_subset_insert)
      with x w have "set (rf_S s') \<subseteq> {- 1, 1}" unfolding s' by (auto simp: rfim_wf_def)
      with w have w': "rfim_wf s'" by (simp add: rfim_wf_def s')
      from x yes have "real_of_int ?x * local_field s i < 0"
        by (auto simp: sgn_if split: if_splits)
      with energy_flip[OF w False i] have "energy s' < energy s" unfolding s' by simp
      with w' d show ?thesis by (simp add: s')
    qed
  qed
qed

lemma sweep_loop_step:
  assumes "rfim_wf s" "sweep_loop s c js = Inr (s', c')"
  shows "rfim_wf s' \<and> s' = s\<lparr>rf_S := rf_S s'\<rparr> \<and> c \<le> c'
         \<and> ((c' = c \<and> s' = s) \<or> (c < c' \<and> energy s' < energy s))"
  using assms
proof (induction js arbitrary: s c)
  case Nil
  then show ?case by simp
next
  case (Cons i js)
  from Cons.prems(2) obtain s1 d where
    fl: "flip s i = Inr (s1, d)" and rest: "sweep_loop s1 (c + d) js = Inr (s', c')"
    by (auto split: sum.splits)
  from flip_step[OF Cons.prems(1) fl] have
    w1: "rfim_wf s1" and e1: "s1 = s\<lparr>rf_S := rf_S s1\<rparr>"
    and c1: "(d = 0 \<and> s1 = s) \<or> (d = 1 \<and> energy s1 < energy s)" by simp_all
  from Cons.IH[OF w1 rest] have
    w': "rfim_wf s'" and e': "s' = s1\<lparr>rf_S := rf_S s'\<rparr>" and le: "c + d \<le> c'"
    and c2: "(c' = c + d \<and> s' = s1) \<or> (c + d < c' \<and> energy s' < energy s1)" by simp_all
  have "s' = s\<lparr>rf_S := rf_S s'\<rparr>"
    by (subst e', subst e1) simp
  moreover have "c \<le> c'" using le by simp
  moreover have "(c' = c \<and> s' = s) \<or> (c < c' \<and> energy s' < energy s)"
    using c1 c2 by auto
  ultimately show ?case using w' by simp
qed

lemma sweep_keeps_instance: "rfim_wf s \<Longrightarrow> sweep N_glob s = Inr (s', k) \<Longrightarrow> rfim_wf s'"
  using sweep_loop_step[of s 0 "[0..<nat N_glob]" s' k] by (simp add: sweep_def)

lemma flip_total:
  assumes "rfim_wf s" "i < rf_N s"
  shows "\<exists>s' d. flip s i = Inr (s', d)"
proof (cases "rf_N s = 1")
  case True
  from flip_single[OF assms(1) True assms(2)] show ?thesis by simp
next
  case False
  from flip_many[OF assms(1) False assms(2)] show ?thesis by simp
qed

lemma same_params_N: "s' = s\<lparr>rf_S := c\<rparr> \<Longrightarrow> rf_N s' = rf_N s"
  by simp

lemma sweep_loop_total:
  assumes "rfim_wf s" "\<forall>i \<in> set js. i < rf_N s"
  shows "\<exists>s' c'. sweep_loop s c js = Inr (s', c')"
  using assms
proof (induction js arbitrary: s c)
  case Nil
  then show ?case by simp
next
  case (Cons i js)
  from Cons.prems have "i < rf_N s" by simp
  from flip_total[OF Cons.prems(1) this] obtain s1 d where fl: "flip s i = Inr (s1, d)" by blast
  from flip_step[OF Cons.prems(1) fl] have w1: "rfim_wf s1" and e1: "s1 = s\<lparr>rf_S := rf_S s1\<rparr>"
    by simp_all
  from same_params_N[OF e1] Cons.prems(2) have "\<forall>i \<in> set js. i < rf_N s1" by simp
  from Cons.IH[OF w1 this, of "c + d"] fl show ?case by simp
qed

lemma below_finite: "finite (below s)"
proof -
  have "finite {c. set c \<subseteq> {- 1, 1 :: int} \<and> length c = rf_N s}"
    by (rule finite_lists_length_eq) simp
  moreover have "below s \<subseteq> {c. set c \<subseteq> {- 1, 1 :: int} \<and> length c = rf_N s}"
    by (auto simp: below_def)
  ultimately show ?thesis by (rule rev_finite_subset)
qed

lemma below_decrease:
  assumes w': "rfim_wf s'" and e: "s' = s\<lparr>rf_S := rf_S s'\<rparr>" and lt: "energy s' < energy s"
  shows "card (below s') < card (below s)"
proof -
  have N: "rf_N s' = rf_N s" by (rule same_params_N[OF e])
  have upd: "s'\<lparr>rf_S := c\<rparr> = s\<lparr>rf_S := c\<rparr>" for c
    by (subst e) simp
  have sub: "below s' \<subseteq> below s"
    using lt by (auto simp: below_def N upd)
  have "s\<lparr>rf_S := rf_S s'\<rparr> = s'" using e by simp
  then have in1: "rf_S s' \<in> below s"
    using w' lt by (simp add: below_def rfim_wf_def N)
  have "s'\<lparr>rf_S := rf_S s'\<rparr> = s'" by simp
  then have out: "rf_S s' \<notin> below s'" by (simp add: below_def)
  from sub in1 out have "below s' \<subset> below s" by blast
  with below_finite[of s] show ?thesis by (rule psubset_card_mono)
qed

lemma equilibrate_total:
  assumes "rfim_wf s"
  shows "\<exists>r. equilibrate G s = Some r
             \<and> (\<forall>s'. r = Inr s' \<longrightarrow> rfim_wf s' \<and> sweep G s' = Inr (s', 0))
             \<and> (G \<le> int (rf_N s) \<longrightarrow> (\<exists>s'. r = Inr s'))"
  using assms
proof (induction "card (below s)" arbitrary: s rule: less_induct)
  case less
  note w = less.prems
  show ?case
  proof (cases "sweep G s")
    case (Inl e)
    have eq: "equilibrate G s = Some (Inl e)"
      by (subst equilibrate.simps) (simp add: Inl)
    have "\<not> G \<le> int (rf_N s)"
    proof
      assume "G \<le> int (rf_N s)"
      then have "\<forall>i \<in> set [0..<nat G]. i < rf_N s" by auto
      from sweep_loop_total[OF w this, of 0] Inl show False by (simp add: sweep_def)
    qed
    with eq show ?thesis by simp
  next
    case (Inr pr)
    obtain s1 k where pr: "pr = (s1, k)" by (cases pr)
    with Inr have sw: "sweep_loop s 0 [0..<nat G] = Inr (s1, k)" by (simp add: sweep_def)
    from sweep_loop_step[OF w sw] have
      w1: "rfim_wf s1" and e1: "s1 = s\<lparr>rf_S := rf_S s1\<rparr>"
      and c1: "(k = 0 \<and> s1 = s) \<or> (0 < k \<and> energy s1 < energy s)" by simp_all
    show ?thesis
    proof (cases "k = 0")
      case True
      with c1 have same: "s1 = s" by simp
      have "equilibrate G s = Some (Inr s)"
        by (subst equilibrate.simps) (simp add: Inr pr True same)
      moreover have "sweep G s = Inr (s, 0)" using Inr pr True same by simp
      ultimately show ?thesis using w by simp
    next
      case False
      with c1 have lt: "energy s1 < energy s" by simp
      have eq: "equilibrate G s = equilibrate G s1"
        by (subst equilibrate.simps) (simp add: Inr pr False)
      from less.hyps[OF below_decrease[OF w1 e1 lt] w1] same_params_N[OF e1] eq
      show ?thesis by simp
    qed
  qed
qed


lemma rf_start_wf: "rfim_wf rf_start" by (simp add: rfim_wf_def rf_start_def)

lemma sweep_start_first: "sweep 2 rf_start = Inr (rf_start\<lparr>rf_S := [1, 1]\<rparr>, 2)"
  by (simp add: sweep_def flip_def rfim_p_def rf_start_def upt_two)

lemma sweep_start_second: "sweep 2 (rf_start\<lparr>rf_S := [1, 1]\<rparr>) = Inr (rf_start\<lparr>rf_S := [1, 1]\<rparr>, 0)"
  by (simp add: sweep_def flip_def rfim_p_def rf_start_def upt_two)

lemma equilibrate_start: "equilibrate 2 rf_start = Some (Inr (rf_start\<lparr>rf_S := [1, 1]\<rparr>))"
  by (subst equilibrate.simps, simp add: sweep_start_first, subst equilibrate.simps, simp add: sweep_start_second)

text \<open>
  Claim C3: on every instance, whatever the value of the module-level \<open>N\<close>,
  \<open>equilibrate\<close> ends: it returns a state or raises (the value is never \<open>None\<close>), and it
  returns whenever the module-level \<open>N\<close> is at most the size of the instance. In the
  state in which it returns, a further \<open>sweep\<close> returns 0 and leaves the state unchanged.
\<close>

theorem equilibrate_terminates_at_fixed_point:
  assumes "rfim_wf s"
  shows "\<exists>r. equilibrate N_glob s = Some r
             \<and> (\<forall>s'. r = Inr s' \<longrightarrow> sweep N_glob s' = Inr (s', 0))
             \<and> (N_glob \<le> int (rf_N s) \<longrightarrow> (\<exists>s'. r = Inr s'))"
  using equilibrate_total[OF assms, of N_glob] by blast

theorem equilibrate_terminates_at_fixed_point_witness:
  "rfim_wf rf_start
   \<and> equilibrate 2 rf_start = Some (Inr (rf_start\<lparr>rf_S := [1, 1]\<rparr>))
   \<and> sweep 2 (rf_start\<lparr>rf_S := [1, 1]\<rparr>) = Inr (rf_start\<lparr>rf_S := [1, 1]\<rparr>, 0)"
  using equilibrate_terminates_at_fixed_point[OF rf_start_wf, of 2] equilibrate_start rf_start_wf by simp

text \<open>
  Claim C2 says that \<open>sweep\<close> attempts a flip for every index from 0 to \<open>N - 1\<close>, \<open>N\<close>
  the size of the instance. The loop runs over the module-level \<open>N\<close>: with that \<open>N\<close>
  equal to 1 and an instance of two agents, \<open>sweep\<close> flips agent 0 and returns 1, and
  agent 1, whom \<open>flip\<close> would flip in the state reached, is never tried.
\<close>

theorem sweep_stops_at_module_level_N:
  "rfim_wf rf_start \<and> rf_N rf_start = 2
   \<and> sweep 1 rf_start = Inr (rf_start\<lparr>rf_S := [1, - 1]\<rparr>, 1)
   \<and> flip (rf_start\<lparr>rf_S := [1, - 1]\<rparr>) 1 = Inr (rf_start\<lparr>rf_S := [1, 1]\<rparr>, 1)"
  by (simp add: rfim_wf_def sweep_def flip_def rfim_p_def rf_start_def)

lemma flip_decoupled:
  assumes w: "rfim_wf s" and J: "rf_J s = 0" and n1: "rf_N s \<noteq> 1" and i: "i < rf_N s"
  shows "\<exists>d. flip s i = Inr (s\<lparr>rf_S := (rf_S s)[i := decoupled_choice s i]\<rparr>, d)"
proof -
  let ?x = "rf_S s ! i"
  have lf: "local_field s i = rf_h s ! i + rf_F s" by (simp add: local_field_def J)
  have x: "?x = 1 \<or> ?x = - 1" by (rule wf_entry[OF w i])
  note fm = flip_many[OF w n1 i]
  show ?thesis
  proof (cases "real_of_int ?x * sgn (local_field s i) = - 1")
    case True
    with x have "decoupled_choice s i = - ?x"
      by (auto simp: decoupled_choice_def lf sgn_if split: if_splits)
    with fm True show ?thesis by simp
  next
    case False
    with x have "decoupled_choice s i = ?x"
      by (auto simp: decoupled_choice_def lf sgn_if split: if_splits)
    then have "s\<lparr>rf_S := (rf_S s)[i := decoupled_choice s i]\<rparr> = s" by simp
    with fm False show ?thesis by simp
  qed
qed

lemma sweep_loop_decoupled:
  assumes "rfim_wf s" "rf_J s = 0" "rf_N s \<noteq> 1" "\<forall>i \<in> set js. i < rf_N s"
  shows "\<exists>s' c'. sweep_loop s c js = Inr (s', c')
           \<and> (\<forall>i < rf_N s. rf_S s' ! i = (if i \<in> set js then decoupled_choice s i else rf_S s ! i))"
  using assms
proof (induction js arbitrary: s c)
  case Nil
  then show ?case by simp
next
  case (Cons k js)
  let ?s1 = "s\<lparr>rf_S := (rf_S s)[k := decoupled_choice s k]\<rparr>"
  from Cons.prems have k: "k < rf_N s" by simp
  from flip_decoupled[OF Cons.prems(1-3) k] obtain d where fl: "flip s k = Inr (?s1, d)" by blast
  from flip_step[OF Cons.prems(1) fl] have w1: "rfim_wf ?s1" by simp
  have p1: "rf_J ?s1 = 0" "rf_N ?s1 \<noteq> 1" "\<forall>i \<in> set js. i < rf_N ?s1"
    using Cons.prems by simp_all
  from Cons.IH[OF w1 p1, of "c + d"] obtain s' c' where
    sl: "sweep_loop ?s1 (c + d) js = Inr (s', c')" and
    ent: "\<forall>i < rf_N ?s1. rf_S s' ! i = (if i \<in> set js then decoupled_choice ?s1 i else rf_S ?s1 ! i)"
    by blast
  from Cons.prems(1) have len: "length (rf_S s) = rf_N s" by (simp add: rfim_wf_def)
  have dc: "decoupled_choice ?s1 i = decoupled_choice s i" if "i < rf_N s" for i
    using that len by (cases "i = k") (auto simp: decoupled_choice_def)
  have "rf_S s' ! i = (if i \<in> set (k # js) then decoupled_choice s i else rf_S s ! i)"
    if i: "i < rf_N s" for i
  proof -
    from ent i have "rf_S s' ! i = (if i \<in> set js then decoupled_choice ?s1 i else rf_S ?s1 ! i)"
      by simp
    with dc[OF i] i len show ?thesis by (cases "i = k") auto
  qed
  with fl sl show ?case by simp
qed

text \<open>
  Claim C7, amended: on an instance of at least two agents with \<open>J = 0\<close>, when the
  module-level \<open>N\<close> is the size of the instance, \<open>equilibrate\<close> returns, \<open>h\<close> and \<open>F\<close>
  are what they were, and every agent \<open>i\<close> with \<open>h[i] + F \<noteq> 0\<close> has the opinion
  \<open>sign(h[i] + F)\<close>; an agent with \<open>h[i] + F = 0\<close> has the opinion it started with.
\<close>

theorem decoupled_equilibrium:
  assumes w: "rfim_wf s" and J: "rf_J s = 0" and N2: "2 \<le> rf_N s" and G: "N_glob = int (rf_N s)"
  shows "\<exists>s'. equilibrate N_glob s = Some (Inr s') \<and> rf_h s' = rf_h s \<and> rf_F s' = rf_F s
           \<and> (\<forall>i < rf_N s.
                 (rf_h s ! i + rf_F s \<noteq> 0 \<longrightarrow> real_of_int (rf_S s' ! i) = sgn (rf_h s ! i + rf_F s))
               \<and> (rf_h s ! i + rf_F s = 0 \<longrightarrow> rf_S s' ! i = rf_S s ! i))"
proof -
  from N2 have n1: "rf_N s \<noteq> 1" by simp
  have rng: "\<forall>i \<in> set [0..<nat N_glob]. i < rf_N s" using G by simp
  from sweep_loop_decoupled[OF w J n1 rng, of 0] obtain s1 k where
    sw1: "sweep_loop s 0 [0..<nat N_glob] = Inr (s1, k)" and
    ent1: "\<forall>i < rf_N s. rf_S s1 ! i = decoupled_choice s i"
    using G by auto
  from sweep_loop_step[OF w sw1] have w1: "rfim_wf s1" and e1: "s1 = s\<lparr>rf_S := rf_S s1\<rparr>"
    and c1: "(k = 0 \<and> s1 = s) \<or> (0 < k \<and> energy s1 < energy s)" by simp_all
  have N1: "rf_N s1 = rf_N s" by (rule same_params_N[OF e1])
  have J1: "rf_J s1 = 0" by (subst e1) (simp add: J)
  have hF: "rf_h s1 = rf_h s" "rf_F s1 = rf_F s" by (subst e1, simp)+
  from sweep_loop_decoupled[OF w1 J1, of "[0..<nat N_glob]" 0] n1 rng N1 obtain s2 k2 where
    sw2: "sweep_loop s1 0 [0..<nat N_glob] = Inr (s2, k2)" and
    ent2: "\<forall>i < rf_N s. rf_S s2 ! i = decoupled_choice s1 i"
    using G by auto
  from sweep_loop_step[OF w1 sw2] have w2: "rfim_wf s2" and e2: "s2 = s1\<lparr>rf_S := rf_S s2\<rparr>"
    and c2: "(k2 = 0 \<and> s2 = s1) \<or> (0 < k2 \<and> energy s2 < energy s1)" by simp_all
  have "rf_S s2 = rf_S s1"
  proof (rule nth_equalityI)
    show "length (rf_S s2) = length (rf_S s1)"
      using w1 w2 N1 same_params_N[OF e2] by (simp add: rfim_wf_def)
  next
    fix i assume "i < length (rf_S s2)"
    then have i: "i < rf_N s" using w2 N1 same_params_N[OF e2] by (simp add: rfim_wf_def)
    with ent1 have a: "rf_S s1 ! i = decoupled_choice s i" by simp
    from ent2 i have "rf_S s2 ! i = decoupled_choice s1 i" by simp
    also have "\<dots> = rf_S s1 ! i"
      using a hF by (auto simp: decoupled_choice_def split: if_splits)
    finally show "rf_S s2 ! i = rf_S s1 ! i" .
  qed
  with e2 have "s2 = s1" by simp
  with c2 have k2: "k2 = 0" by auto
  have sweep_start_first: "sweep N_glob s = Inr (s1, k)" using sw1 by (simp add: sweep_def)
  have sweep_start_second: "sweep N_glob s1 = Inr (s1, 0)" using sw2 \<open>s2 = s1\<close> k2 by (simp add: sweep_def)
  have eq1: "equilibrate N_glob s1 = Some (Inr s1)"
    by (subst equilibrate.simps) (simp add: sweep_start_second)
  have eq: "equilibrate N_glob s = Some (Inr s1)"
    by (subst equilibrate.simps) (simp add: sweep_start_first eq1)
  have "(rf_h s ! i + rf_F s \<noteq> 0 \<longrightarrow> real_of_int (rf_S s1 ! i) = sgn (rf_h s ! i + rf_F s))
        \<and> (rf_h s ! i + rf_F s = 0 \<longrightarrow> rf_S s1 ! i = rf_S s ! i)" if "i < rf_N s" for i
    using ent1 that by (auto simp: decoupled_choice_def sgn_if)
  with eq hF show ?thesis by blast
qed

lemma rf_dec_wf: "rfim_wf rf_dec" by (simp add: rfim_wf_def rf_dec_def)

theorem decoupled_equilibrium_witness:
  "rfim_wf rf_dec \<and> rf_J rf_dec = 0 \<and> 2 \<le> rf_N rf_dec
   \<and> (\<exists>s'. equilibrate 2 rf_dec = Some (Inr s') \<and> rf_S s' ! 0 = 1 \<and> rf_S s' ! 1 = - 1)"
proof -
  have J: "rf_J rf_dec = 0" and N: "2 \<le> rf_N rf_dec" and G: "2 = int (rf_N rf_dec)"
    by (simp_all add: rf_dec_def)
  from decoupled_equilibrium[OF rf_dec_wf J N G] obtain s' where
    eq: "equilibrate 2 rf_dec = Some (Inr s')" and
    ent: "\<forall>i < rf_N rf_dec.
                 (rf_h rf_dec ! i + rf_F rf_dec \<noteq> 0 \<longrightarrow> real_of_int (rf_S s' ! i) = sgn (rf_h rf_dec ! i + rf_F rf_dec))
               \<and> (rf_h rf_dec ! i + rf_F rf_dec = 0 \<longrightarrow> rf_S s' ! i = rf_S rf_dec ! i)"
    by blast
  from ent have "real_of_int (rf_S s' ! 0) = 1" by (simp add: rf_dec_def)
  moreover from ent have "real_of_int (rf_S s' ! 1) = - 1" by (simp add: rf_dec_def)
  ultimately have "rf_S s' ! 0 = 1 \<and> rf_S s' ! 1 = - 1" by linarith
  with eq rf_dec_wf J N show ?thesis by blast
qed

text \<open>
  Claim C7 as stated fails where \<open>h[i] + F\<close> is zero: two uncoupled agents without
  any field are at equilibrium with the opinions \<open>+1\<close> and \<open>-1\<close>, and the sign of
  their field is neither (\<open>np.sign\<close> gives 0).
\<close>

theorem zero_field_keeps_opinion:
  "rfim_wf rf_zero \<and> rf_J rf_zero = 0
   \<and> equilibrate 2 rf_zero = Some (Inr rf_zero)
   \<and> rf_h rf_zero ! 0 + rf_F rf_zero = 0 \<and> rf_S rf_zero ! 0 = 1
   \<and> rf_h rf_zero ! 1 + rf_F rf_zero = 0 \<and> rf_S rf_zero ! 1 = - 1
   \<and> np_sign (Fin (rf_h rf_zero ! 0 + rf_F rf_zero)) = Fin 0"
proof -
  have "sweep 2 rf_zero = Inr (rf_zero, 0)"
    by (simp add: sweep_def flip_def rfim_p_def rf_zero_def upt_two)
  then have "equilibrate 2 rf_zero = Some (Inr rf_zero)"
    by (subst equilibrate.simps) simp
  then show ?thesis by (simp add: rfim_wf_def rf_zero_def)
qed


text \<open>
  Claim C10: if the local field of agent \<open>i\<close> is exactly zero, or if \<open>S[i]\<close> agrees in
  sign with it, then \<open>flip\<close> returns 0 and the state (\<open>S\<close>, \<open>h\<close>, \<open>F\<close>, \<open>J\<close>) is the one
  it was called in.
\<close>

theorem flip_unchanged_on_zero_or_agreeing_field:
  "rfim_p s i = Inr v \<Longrightarrow> v = Fin 0 \<or> agrees_in_sign (rf_S s ! i) v \<Longrightarrow> flip s i = Inr (s, 0)"
  by (cases v)
     (auto simp: flip_def rfim_p_def agrees_in_sign_def Let_def sgn_if split: if_splits)

theorem flip_unchanged_on_zero_or_agreeing_field_witness:
  "rfim_p rf_bal 0 = Inr (Fin 0) \<and> flip rf_bal 0 = Inr (rf_bal, 0)"
proof -
  have p0: "rfim_p rf_bal 0 = Inr (Fin 0)"
    by (simp add: rfim_p_def rf_bal_def)
  from flip_unchanged_on_zero_or_agreeing_field[OF p0] p0 show ?thesis by simp
qed


section \<open>Properties of the self-consistency map\<close>

lemma ceil_half: "\<lceil>real_of_int m / 2\<rceil> = (m + 1) div 2"
  by linarith

lemma sum_list_upto_nat:
  fixes g :: "int \<Rightarrow> real"
  assumes "0 \<le> a" and that: "0 \<le> b"
  shows "sum_list (map g [a..b]) = (\<Sum>l = nat a..nat b. g (int l))"
proof -
  have "sum_list (map g [a..b]) = sum g (set [a..b])"
    by (rule sum_list_distinct_conv_sum_set) simp
  also have "set [a..b] = int ` {nat a..nat b}"
    using assms that by (simp add: image_int_atLeastAtMost)
  also have "sum g (int ` {nat a..nat b}) = (\<Sum>l = nat a..nat b. g (int l))"
    by (subst sum.reindex) (simp_all add: o_def)
  finally show ?thesis .
qed

lemma bern_weight_simps:
  "bern_weight x [] = 1"
  "bern_weight x (True # bs) = x * bern_weight x bs"
  "bern_weight x (False # bs) = (1 - x) * bern_weight x bs"
  by (simp_all add: bern_weight_def)

lemma positives_simps:
  "positives [] = 0"
  "positives (True # bs) = Suc (positives bs)"
  "positives (False # bs) = positives bs"
  by (simp_all add: positives_def)

lemma sum_n_lists_Suc:
  fixes f :: "bool list \<Rightarrow> real"
  shows "sum_list (map f (List.n_lists (Suc m) [True, False]))
         = sum_list (map (\<lambda>ys. f (True # ys) + f (False # ys)) (List.n_lists m [True, False]))"
proof -
  have "sum_list (map f (concat (map (\<lambda>ys. map (\<lambda>y. y # ys) [True, False]) xs)))
        = sum_list (map (\<lambda>ys. f (True # ys) + f (False # ys)) xs)" for xs
    by (induction xs) simp_all
  then show ?thesis by simp
qed

lemma sum_filter_if:
  fixes f :: "'a \<Rightarrow> real"
  shows "sum_list (map f (filter P xs)) = sum_list (map (\<lambda>x. if P x then f x else 0) xs)"
  by (induction xs) simp_all

lemma sum_list_split:
  fixes f g :: "'a \<Rightarrow> real"
  shows "sum_list (map (\<lambda>y. a * f y + b * g y) xs)
         = a * sum_list (map f xs) + b * sum_list (map g xs)"
  by (induction xs) (simp_all add: algebra_simps)

lemma prob_exactly_0: "prob_exactly l 0 x = (if l = 0 then 1 else 0)"
  by (auto simp: prob_exactly_def bern_weight_simps positives_simps)

lemma prob_exactly_Suc_0:
  "prob_exactly 0 (Suc m) x = (1 - x) * prob_exactly 0 m x"
proof -
  have "prob_exactly 0 (Suc m) x
        = sum_list (map (\<lambda>ys. 0 * 0 + (1 - x) * (if positives ys = 0 then bern_weight x ys else 0))
                        (List.n_lists m [True, False]))"
    unfolding prob_exactly_def sum_filter_if sum_n_lists_Suc
    by (rule arg_cong[where f = sum_list], rule map_cong)
       (simp_all add: bern_weight_simps positives_simps)
  also have "\<dots> = 0 * sum_list (map (\<lambda>ys. 0) (List.n_lists m [True, False])) + (1 - x) * prob_exactly 0 m x"
    unfolding prob_exactly_def sum_filter_if by (rule sum_list_split)
  finally show ?thesis by simp
qed

lemma prob_exactly_Suc_Suc:
  "prob_exactly (Suc j) (Suc m) x = x * prob_exactly j m x + (1 - x) * prob_exactly (Suc j) m x"
proof -
  have "prob_exactly (Suc j) (Suc m) x
        = sum_list (map (\<lambda>ys. x * (if positives ys = j then bern_weight x ys else 0)
                                + (1 - x) * (if positives ys = Suc j then bern_weight x ys else 0))
                        (List.n_lists m [True, False]))"
    unfolding prob_exactly_def sum_filter_if sum_n_lists_Suc
    by (rule arg_cong[where f = sum_list], rule map_cong)
       (simp_all add: bern_weight_simps positives_simps)
  also have "\<dots> = x * prob_exactly j m x + (1 - x) * prob_exactly (Suc j) m x"
    unfolding prob_exactly_def sum_filter_if by (rule sum_list_split)
  finally show ?thesis .
qed

lemma prob_exactly_binomial:
  "prob_exactly l m x = real (m choose l) * x ^ l * (1 - x) ^ (m - l)"
proof (induction m arbitrary: l)
  case 0
  show ?case by (cases l) (simp_all add: prob_exactly_0)
next
  case (Suc m)
  show ?case
  proof (cases l)
    case 0
    then show ?thesis by (simp add: prob_exactly_Suc_0 Suc.IH)
  next
    case (Suc j)
    show ?thesis
    proof (cases "j < m")
      case True
      then have e: "m - j = Suc (m - Suc j)" by simp
      have "prob_exactly (Suc j) (Suc m) x
            = x * (real (m choose j) * x ^ j * (1 - x) ^ (m - j))
              + (1 - x) * (real (m choose Suc j) * x ^ Suc j * (1 - x) ^ (m - Suc j))"
        by (simp only: prob_exactly_Suc_Suc Suc.IH)
      also have "\<dots> = real (m choose j) * x ^ Suc j * (1 - x) ^ (m - j)
                      + real (m choose Suc j) * x ^ Suc j * (1 - x) ^ (m - j)"
        unfolding e by simp
      also have "\<dots> = real (Suc m choose Suc j) * x ^ Suc j * (1 - x) ^ (Suc m - Suc j)"
        by (simp add: algebra_simps)
      finally show ?thesis using Suc by simp
    next
      case False
      then have z: "m choose Suc j = 0" by (simp add: binomial_eq_0)
      have "prob_exactly (Suc j) (Suc m) x = x * (real (m choose j) * x ^ j * (1 - x) ^ (m - j))"
        by (simp add: prob_exactly_Suc_Suc Suc.IH z)
      also have "\<dots> = real (Suc m choose Suc j) * x ^ Suc j * (1 - x) ^ (Suc m - Suc j)"
        using z by simp
      finally show ?thesis using Suc by simp
    qed
  qed
qed

lemma positives_le: "positives bs \<le> length bs"
  by (simp add: positives_def)

lemma prob_at_least_sum:
  "prob_at_least k m x = (\<Sum>l = k..m. prob_exactly l m x)"
proof -
  have gen: "\<forall>bs \<in> set xs. positives bs \<le> m \<Longrightarrow>
        sum_list (map (\<lambda>bs. if k \<le> positives bs then bern_weight x bs else 0) xs)
        = (\<Sum>l = k..m. sum_list (map (\<lambda>bs. if positives bs = l then bern_weight x bs else 0) xs))"
    for xs :: "bool list list"
  proof (induction xs)
    case Nil
    show ?case by simp
  next
    case (Cons bs xs)
    have "(\<Sum>l = k..m. if positives bs = l then bern_weight x bs else 0)
          = (\<Sum>l \<in> {k..m}. if l = positives bs then bern_weight x bs else 0)"
      by (rule sum.cong) auto
    also have "\<dots> = (if positives bs \<in> {k..m} then bern_weight x bs else 0)"
      by (rule sum.delta) simp
    also have "\<dots> = (if k \<le> positives bs then bern_weight x bs else 0)"
      using Cons.prems by simp
    finally have hd: "(if k \<le> positives bs then bern_weight x bs else 0)
                      = (\<Sum>l = k..m. if positives bs = l then bern_weight x bs else 0)" by simp
    from Cons have "sum_list (map (\<lambda>bs. if k \<le> positives bs then bern_weight x bs else 0) xs)
        = (\<Sum>l = k..m. sum_list (map (\<lambda>bs. if positives bs = l then bern_weight x bs else 0) xs))"
      by simp
    with hd show ?case by (simp add: sum.distrib)
  qed
  have "\<forall>bs \<in> set (List.n_lists m [True, False]). positives bs \<le> m"
    using positives_le length_n_lists_elem by metis
  from gen[OF this] show ?thesis
    unfolding prob_at_least_def prob_exactly_def sum_filter_if .
qed

lemma F_z_spec_prob:
  "F_z_spec z p m q = prob_at_least (nat \<lceil>real_of_int m / 2\<rceil>) (nat m) (z * p + (1 - z) * q)"
  by (simp add: F_z_spec_def Let_def prob_at_least_sum prob_exactly_binomial)

lemma prob_at_least_0: "prob_at_least k 0 x = (if k = 0 then 1 else 0)"
  by (auto simp: prob_at_least_def bern_weight_simps positives_simps)

lemma prob_at_least_Suc:
  "prob_at_least k (Suc m) x = x * prob_at_least (k - 1) m x + (1 - x) * prob_at_least k m x"
proof -
  have "prob_at_least k (Suc m) x
        = sum_list (map (\<lambda>ys. x * (if k - 1 \<le> positives ys then bern_weight x ys else 0)
                                + (1 - x) * (if k \<le> positives ys then bern_weight x ys else 0))
                        (List.n_lists m [True, False]))"
    unfolding prob_at_least_def sum_filter_if sum_n_lists_Suc
    by (rule arg_cong[where f = sum_list], rule map_cong)
       (auto simp: bern_weight_simps positives_simps)
  also have "\<dots> = x * prob_at_least (k - 1) m x + (1 - x) * prob_at_least k m x"
    unfolding prob_at_least_def sum_filter_if by (rule sum_list_split)
  finally show ?thesis .
qed

lemma bern_weight_nonneg: "0 \<le> x \<Longrightarrow> x \<le> 1 \<Longrightarrow> 0 \<le> bern_weight x bs"
  by (induction bs) (auto simp: bern_weight_def)

lemma prob_at_least_antimono:
  assumes "0 \<le> x" "x \<le> 1" "j \<le> k"
  shows "prob_at_least k m x \<le> prob_at_least j m x"
  unfolding prob_at_least_def sum_filter_if
  by (rule sum_list_mono) (use assms bern_weight_nonneg in auto)

lemma prob_at_least_mono:
  assumes "0 \<le> x" "x \<le> y" "y \<le> 1"
  shows "prob_at_least k m x \<le> prob_at_least k m y"
proof (induction m arbitrary: k)
  case 0
  show ?case by (simp add: prob_at_least_0)
next
  case (Suc m)
  let ?A = "\<lambda>t. prob_at_least (k - 1) m t" and ?B = "\<lambda>t. prob_at_least k m t"
  have x1: "x \<le> 1" using assms by simp
  have AB: "?B x \<le> ?A x" by (rule prob_at_least_antimono[OF assms(1) x1]) simp
  have "x * ?A x + (1 - x) * ?B x = ?B x + x * (?A x - ?B x)" by (simp add: algebra_simps)
  also have "\<dots> \<le> ?B x + y * (?A x - ?B x)"
    using AB assms(2) by (simp add: mult_right_mono)
  also have "\<dots> = y * ?A x + (1 - y) * ?B x" by (simp add: algebra_simps)
  also have "\<dots> \<le> y * ?A y + (1 - y) * ?B y"
  proof -
    have "y * ?A x \<le> y * ?A y" using Suc.IH[of "k - 1"] assms by (simp add: mult_left_mono)
    moreover have "(1 - y) * ?B x \<le> (1 - y) * ?B y" using Suc.IH[of k] assms by (simp add: mult_left_mono)
    ultimately show ?thesis by simp
  qed
  finally show ?case by (simp add: prob_at_least_Suc)
qed

text \<open>
  Without rounding \<open>F_z\<close> is the specification's sum, which is monotone in \<open>q\<close>.
\<close>

lemma foldl_d_add_exact:
  "foldl (d_add Fin) (Fin c) (map (\<lambda>l. Fin (g l)) ls) = Fin (c + sum_list (map g ls))"
  by (induction ls arbitrary: c) (simp_all add: add.assoc)

lemma d_sum_exact: "d_sum Fin (map (\<lambda>l. Fin (g l)) ls) = Fin (sum_list (map g ls))"
  using foldl_d_add_exact[of 0 g ls] by (simp add: d_sum_def)

lemma F_z_exact:
  assumes "0 \<le> m"
  shows "F_z Fin (Fin z) (Fin p) m (Fin q) = Fin (F_z_spec z p m q)"
proof -
  let ?x = "z * p + (1 - z) * q"
  let ?g = "\<lambda>l::int. real (nat m choose nat l) * ?x ^ nat l * (1 - ?x) ^ nat (m - l)"
  have a: "0 \<le> (m + 1) div 2" using assms by simp
  have "F_z Fin (Fin z) (Fin p) m (Fin q) = d_sum Fin (map (\<lambda>l. Fin (?g l)) [(m + 1) div 2..m])"
    by (simp add: F_z_def d_binom_def)
  also have "\<dots> = Fin (sum_list (map ?g [(m + 1) div 2..m]))"
    by (rule d_sum_exact)
  also have "sum_list (map ?g [(m + 1) div 2..m]) = (\<Sum>l = nat ((m + 1) div 2)..nat m. ?g (int l))"
    by (rule sum_list_upto_nat[OF a assms])
  also have "\<dots> = (\<Sum>l = nat ((m + 1) div 2)..nat m. real (nat m choose l) * ?x ^ l * (1 - ?x) ^ (nat m - l))"
  proof (rule sum.cong)
    fix l
    have "nat (m - int l) = nat m - l" using assms by linarith
    then show "?g (int l) = real (nat m choose l) * ?x ^ l * (1 - ?x) ^ (nat m - l)" by simp
  qed simp
  also have "\<dots> = F_z_spec z p m q"
    by (simp add: F_z_spec_def Let_def ceil_half)
  finally show ?thesis .
qed

lemma F_z_spec_mono:
  assumes "0 \<le> z" "z \<le> 1" "0 \<le> p" "p \<le> 1" and q: "0 \<le> q" "q \<le> q'" "q' \<le> 1"
  shows "F_z_spec z p m q \<le> F_z_spec z p m q'"
proof -
  let ?x = "z * p + (1 - z) * q" and ?y = "z * p + (1 - z) * q'"
  have "0 \<le> z * p" "0 \<le> (1 - z) * q" using assms by simp_all
  then have x0: "0 \<le> ?x" by simp
  have xy: "?x \<le> ?y" using assms by (simp add: mult_left_mono)
  have "z * p \<le> z * 1" using assms by (intro mult_left_mono) simp_all
  moreover have "(1 - z) * q' \<le> (1 - z) * 1" using assms by (intro mult_left_mono) simp_all
  ultimately have y1: "?y \<le> 1" by simp
  from prob_at_least_mono[OF x0 xy y1] show ?thesis
    by (simp add: F_z_spec_prob)
qed

text \<open>
  On doubles, \<open>z = 1\<close> makes \<open>(1 - z) * q\<close> zero for every finite \<open>q\<close>.
\<close>

lemma F_z_double_at_one:
  "F_z rd64 (Fin 1) p m (Fin q) = F_z rd64 (Fin 1) p m (Fin q')"
proof -
  have z: "rd64 0 = Fin 0" by (simp add: rd64_def)
  have "d_mul rd64 (d_sub rd64 (Fin 1) (Fin 1)) (Fin r) = Fin 0" for r
    by (simp add: z)
  then show ?thesis by (simp add: F_z_def)
qed

text \<open>
  The rounding at given values: anything from \<open>2^1024\<close> on overflows, as the central
  binomial coefficient of 1100 does; a value between \<open>2^e\<close> and \<open>2^(e+1)\<close> is rounded
  to a multiple of \<open>2^(e-52)\<close>.
\<close>

lemma rd64_0: "rd64 0 = Fin 0"
  by (simp add: rd64_def)






lemma below_overflow:
  fixes x :: real
  assumes "\<bar>x\<bar> < 2 ^ 1023"
  shows "\<not> 2 ^ 1024 - 2 ^ 970 \<le> \<bar>x\<bar>"
proof -
  have "(2::real) ^ 970 \<le> 2 ^ 1023" by (rule power_increasing) simp_all
  moreover have "(2::real) ^ 1024 = 2 * 2 ^ 1023" by (simp only: power_Suc[symmetric]) simp
  ultimately show ?thesis using assms by linarith
qed

lemma rd64_eval:
  assumes "0 < x" "2 powi e \<le> x" "x < 2 powi (e + 1)" "- 1022 \<le> e" "e \<le> 1022"
  shows "rd64 x = Fin (of_int (round_even (x / 2 powi (e - 52))) * 2 powi (e - 52))"
proof -
  have "(2::real) powi (e + 1) \<le> 2 powi 1023"
    using assms(5) by (intro power_int_increasing) simp_all
  also have "\<dots> = 2 ^ 1023" by (simp only: power_int_def) simp
  finally have "\<bar>x\<bar> < 2 ^ 1023" using assms(1,3) by linarith
  then have no: "\<not> 2 ^ 1024 - 2 ^ 970 \<le> \<bar>x\<bar>" by (rule below_overflow)
  have "2 powr (real_of_int e) \<le> x \<and> x < 2 powr (real_of_int e + 1)"
    using assms(2,3) powr_real_of_int'[of 2 e] powr_real_of_int'[of 2 "e + 1"]
    by (simp add: add.commute)
  then have "\<lfloor>log 2 x\<rfloor> = e"
    using floor_log_eq_powr_iff[of x 2 e] assms(1) by simp
  then have "max \<lfloor>log 2 \<bar>x\<bar>\<rfloor> (- 1022) = e" using assms(1,4) by simp
  then show ?thesis using no assms(1) by (simp only: rd64_def Let_def if_False) simp
qed

lemma rd64_1: "rd64 1 = Fin 1"
  using rd64_eval[of 1 0] by (simp add: round_even_def)

lemma rd64_3: "rd64 3 = Fin 3"
  using rd64_eval[of 3 1] by (simp add: round_even_def)

text \<open>
  \<open>F_z\<close> on doubles at \<open>z = 0\<close>, \<open>m = 3\<close>, operation by operation: \<open>pi = q\<close>,
  \<open>om = 1 - pi\<close>, \<open>p2 = pi ** 2\<close>, \<open>m1 = 3 * p2\<close>, \<open>t2 = m1 * om\<close>, \<open>p3 = pi ** 3\<close>,
  and the sum \<open>v = t2 + p3\<close>, each rounded.
\<close>

lemma F_z_at_q_lo: "F_z rd64 (Fin 0) (Fin p_052) 3 (Fin q_lo) = Fin (8833672488641105 / 2 ^ 54)"
proof -
  define om :: real where "om = 4561445063757871 / 2 ^ 53"
  define p2 :: real where "p2 = 8777303473658897 / 2 ^ 55"
  define m1 :: real where "m1 = 6582977605244173 / 2 ^ 53"
  define t2 :: real where "t2 = 1666882781929371 / 2 ^ 52"
  define p3 :: real where "p3 = 8664565443694483 / 2 ^ 56"
  define v :: real where "v = 8833672488641105 / 2 ^ 54"
  have rq: "rd64 (q_lo) = Fin q_lo"
    unfolding om_def p2_def m1_def t2_def p3_def v_def q_lo_def
    using rd64_eval[of "4445754190983121 / 2 ^ 53" "-2"]
    by (simp add: round_even_def power_divide)
  have rom: "rd64 (1 - q_lo) = Fin om"
    unfolding om_def p2_def m1_def t2_def p3_def v_def q_lo_def
    using rd64_eval[of "1 - 4445754190983121 / 2 ^ 53" "-1"]
    by (simp add: round_even_def power_divide)
  have rom1: "rd64 (om) = Fin om"
    unfolding om_def p2_def m1_def t2_def p3_def v_def q_lo_def
    using rd64_eval[of "4561445063757871 / 2 ^ 53" "-1"]
    by (simp add: round_even_def power_divide)
  have rp2: "rd64 (q_lo ^ 2) = Fin p2"
    unfolding om_def p2_def m1_def t2_def p3_def v_def q_lo_def
    using rd64_eval[of "(4445754190983121 / 2 ^ 53) ^ 2" "-3"]
    by (simp add: round_even_def power_divide)
  have rm1: "rd64 (3 * p2) = Fin m1"
    unfolding om_def p2_def m1_def t2_def p3_def v_def q_lo_def
    using rd64_eval[of "3 * (8777303473658897 / 2 ^ 55)" "-1"]
    by (simp add: round_even_def power_divide)
  have rt2: "rd64 (m1 * om) = Fin t2"
    unfolding om_def p2_def m1_def t2_def p3_def v_def q_lo_def
    using rd64_eval[of "(6582977605244173 / 2 ^ 53) * (4561445063757871 / 2 ^ 53)" "-2"]
    by (simp add: round_even_def power_divide)
  have rt2i: "rd64 (t2) = Fin t2"
    unfolding om_def p2_def m1_def t2_def p3_def v_def q_lo_def
    using rd64_eval[of "1666882781929371 / 2 ^ 52" "-2"]
    by (simp add: round_even_def power_divide)
  have rp3: "rd64 (q_lo ^ 3) = Fin p3"
    unfolding om_def p2_def m1_def t2_def p3_def v_def q_lo_def
    using rd64_eval[of "(4445754190983121 / 2 ^ 53) ^ 3" "-4"]
    by (simp add: round_even_def power_divide)
  have rp3i: "rd64 (p3) = Fin p3"
    unfolding om_def p2_def m1_def t2_def p3_def v_def q_lo_def
    using rd64_eval[of "8664565443694483 / 2 ^ 56" "-4"]
    by (simp add: round_even_def power_divide)
  have rv: "rd64 (t2 + p3) = Fin v"
    unfolding om_def p2_def m1_def t2_def p3_def v_def q_lo_def
    using rd64_eval[of "1666882781929371 / 2 ^ 52 + 8664565443694483 / 2 ^ 56" "-2"]
    by (simp add: round_even_def power_divide)
  have l: "[(3 + 1) div 2..3] = [2, 3::int]" by (simp add: upto.simps)
  have b: "3 choose 2 = (3::nat)" "3 choose 3 = (1::nat)" by (simp_all add: eval_nat_numeral)
  have "F_z rd64 (Fin 0) (Fin p_052) 3 (Fin q_lo) = Fin v"
    unfolding F_z_def Let_def l
    by (simp add: d_sum_def d_binom_def b rd64_0 rd64_1 rd64_3 rq rom rom1 rp2 rm1 rt2 rt2i rp3 rp3i rv)
  then show ?thesis by (simp only: v_def)
qed

lemma F_z_at_q_hi: "F_z rd64 (Fin 0) (Fin p_052) 3 (Fin q_hi) = Fin (552104530540069 / 2 ^ 50)"
proof -
  define om :: real where "om = 2280722531878935 / 2 ^ 52"
  define p2 :: real where "p2 = 8777303473658899 / 2 ^ 55"
  define m1 :: real where "m1 = 3291488802622087 / 2 ^ 52"
  define t2 :: real where "t2 = 6667531127717483 / 2 ^ 54"
  define p3 :: real where "p3 = 8664565443694485 / 2 ^ 56"
  define v :: real where "v = 552104530540069 / 2 ^ 50"
  have rq: "rd64 (q_hi) = Fin q_hi"
    unfolding om_def p2_def m1_def t2_def p3_def v_def q_hi_def
    using rd64_eval[of "8891508381966243 / 2 ^ 54" "-2"]
    by (simp add: round_even_def power_divide)
  have rom: "rd64 (1 - q_hi) = Fin om"
    unfolding om_def p2_def m1_def t2_def p3_def v_def q_hi_def
    using rd64_eval[of "1 - 8891508381966243 / 2 ^ 54" "-1"]
    by (simp add: round_even_def power_divide)
  have rom1: "rd64 (om) = Fin om"
    unfolding om_def p2_def m1_def t2_def p3_def v_def q_hi_def
    using rd64_eval[of "2280722531878935 / 2 ^ 52" "-1"]
    by (simp add: round_even_def power_divide)
  have rp2: "rd64 (q_hi ^ 2) = Fin p2"
    unfolding om_def p2_def m1_def t2_def p3_def v_def q_hi_def
    using rd64_eval[of "(8891508381966243 / 2 ^ 54) ^ 2" "-3"]
    by (simp add: round_even_def power_divide)
  have rm1: "rd64 (3 * p2) = Fin m1"
    unfolding om_def p2_def m1_def t2_def p3_def v_def q_hi_def
    using rd64_eval[of "3 * (8777303473658899 / 2 ^ 55)" "-1"]
    by (simp add: round_even_def power_divide)
  have rt2: "rd64 (m1 * om) = Fin t2"
    unfolding om_def p2_def m1_def t2_def p3_def v_def q_hi_def
    using rd64_eval[of "(3291488802622087 / 2 ^ 52) * (2280722531878935 / 2 ^ 52)" "-2"]
    by (simp add: round_even_def power_divide)
  have rt2i: "rd64 (t2) = Fin t2"
    unfolding om_def p2_def m1_def t2_def p3_def v_def q_hi_def
    using rd64_eval[of "6667531127717483 / 2 ^ 54" "-2"]
    by (simp add: round_even_def power_divide)
  have rp3: "rd64 (q_hi ^ 3) = Fin p3"
    unfolding om_def p2_def m1_def t2_def p3_def v_def q_hi_def
    using rd64_eval[of "(8891508381966243 / 2 ^ 54) ^ 3" "-4"]
    by (simp add: round_even_def power_divide)
  have rp3i: "rd64 (p3) = Fin p3"
    unfolding om_def p2_def m1_def t2_def p3_def v_def q_hi_def
    using rd64_eval[of "8664565443694485 / 2 ^ 56" "-4"]
    by (simp add: round_even_def power_divide)
  have rv: "rd64 (t2 + p3) = Fin v"
    unfolding om_def p2_def m1_def t2_def p3_def v_def q_hi_def
    using rd64_eval[of "6667531127717483 / 2 ^ 54 + 8664565443694485 / 2 ^ 56" "-2"]
    by (simp add: round_even_def power_divide)
  have l: "[(3 + 1) div 2..3] = [2, 3::int]" by (simp add: upto.simps)
  have b: "3 choose 2 = (3::nat)" "3 choose 3 = (1::nat)" by (simp_all add: eval_nat_numeral)
  have "F_z rd64 (Fin 0) (Fin p_052) 3 (Fin q_hi) = Fin v"
    unfolding F_z_def Let_def l
    by (simp add: d_sum_def d_binom_def b rd64_0 rd64_1 rd64_3 rq rom rom1 rp2 rm1 rt2 rt2i rp3 rp3i rv)
  then show ?thesis by (simp only: v_def)
qed






text \<open>
  Claim C8, amended: in exact arithmetic, for \<open>z\<close> in \<open>[0,1]\<close>, \<open>p\<close> in \<open>(0,1)\<close> and a
  positive \<open>m\<close>, \<open>F_z\<close> is monotone non-decreasing in \<open>q\<close> on \<open>[0,1]\<close>, and for \<open>z = 1\<close>
  its value is, for every \<open>q\<close>, the probability that at least \<open>\<lceil>m/2\<rceil>\<close> of \<open>m\<close>
  independent Bernoulli(\<open>p\<close>) draws succeed; on doubles, for \<open>z = 1\<close>, \<open>F_z\<close> returns
  the same value for every \<open>q\<close>.
\<close>

theorem F_z_monotone_in_q:
  assumes "0 \<le> z" "z \<le> 1" "0 < p" "p < 1" "0 < m"
  shows "(0 \<le> q \<and> q \<le> q' \<and> q' \<le> 1 \<longrightarrow>
            (\<exists>a b. F_z Fin (Fin z) (Fin p) m (Fin q) = Fin a
                  \<and> F_z Fin (Fin z) (Fin p) m (Fin q') = Fin b \<and> a \<le> b))
         \<and> F_z Fin (Fin 1) (Fin p) m (Fin r)
             = Fin (prob_at_least (nat \<lceil>real_of_int m / 2\<rceil>) (nat m) p)
         \<and> F_z rd64 (Fin 1) (Fin p) m (Fin r) = F_z rd64 (Fin 1) (Fin p) m (Fin r')"
proof -
  have m0: "0 \<le> m" using assms by simp
  have p: "0 \<le> p" "p \<le> 1" using assms by simp_all
  have "F_z_spec z p m q \<le> F_z_spec z p m q'" if "0 \<le> q" "q \<le> q'" "q' \<le> 1"
    using F_z_spec_mono[OF assms(1,2) p that] .
  then have mono: "0 \<le> q \<and> q \<le> q' \<and> q' \<le> 1 \<longrightarrow>
            (\<exists>a b. F_z Fin (Fin z) (Fin p) m (Fin q) = Fin a
                  \<and> F_z Fin (Fin z) (Fin p) m (Fin q') = Fin b \<and> a \<le> b)"
    by (simp add: F_z_exact[OF m0])
  have one: "F_z Fin (Fin 1) (Fin p) m (Fin r)
             = Fin (prob_at_least (nat \<lceil>real_of_int m / 2\<rceil>) (nat m) p)"
    by (simp add: F_z_exact[OF m0] F_z_spec_prob)
  from mono one F_z_double_at_one[of "Fin p" m r r'] show ?thesis by blast
qed

theorem F_z_monotone_in_q_witness:
  "(0::real) \<le> 0 \<and> (0::real) \<le> 1 \<and> (0::real) < 0.52 \<and> (0.52::real) < 1 \<and> (0::int) < 3
   \<and> (0::real) \<le> 1/2 \<and> (1/2::real) \<le> 1
   \<and> F_z Fin (Fin 0) (Fin 0.52) 3 (Fin 0) = Fin 0
   \<and> F_z Fin (Fin 0) (Fin 0.52) 3 (Fin (1/2)) = Fin (1/2)
   \<and> F_z Fin (Fin 1) (Fin 0.52) 3 (Fin 0) = Fin (prob_at_least 2 3 0.52)
   \<and> F_z rd64 (Fin 1) (Fin 0.52) 3 (Fin 0) = F_z rd64 (Fin 1) (Fin 0.52) 3 (Fin (1/2))"
proof -
  have l: "[(3 + 1) div 2..3] = [2, 3::int]" by (simp add: upto.simps)
  have v: "F_z Fin (Fin 0) (Fin 0.52) 3 (Fin 0) = Fin 0"
          "F_z Fin (Fin 0) (Fin 0.52) 3 (Fin (1/2)) = Fin (1/2)"
    using l by (simp_all add: F_z_def d_sum_def d_binom_def eval_nat_numeral)
  have c: "nat \<lceil>real_of_int 3 / 2\<rceil> = 2" by (simp add: ceil_half)
  from F_z_monotone_in_q[where z = 0 and p = "0.52" and m = 3 and q = 0 and q' = "1/2" and r = 0 and r' = "1/2"] c
  have "F_z Fin (Fin 1) (Fin 0.52) 3 (Fin 0) = Fin (prob_at_least 2 3 0.52)
        \<and> F_z rd64 (Fin 1) (Fin 0.52) 3 (Fin 0) = F_z rd64 (Fin 1) (Fin 0.52) 3 (Fin (1/2))"
    by simp
  with v show ?thesis by simp
qed

text \<open>
  Claim C8 as stated fails on doubles: with \<open>z = 0\<close> and \<open>m = 3\<close>, the value of \<open>F_z\<close> at
  the double \<open>q_lo = 0.49357786646532464\<close> is larger than its value at the next double
  \<open>q_hi = 0.4935778664653247\<close>.
\<close>

theorem F_z_not_monotone_on_doubles:
  "F_z rd64 (Fin 0) (Fin p_052) 3 (Fin q_lo) = Fin (8833672488641105 / 2 ^ 54)
   \<and> F_z rd64 (Fin 0) (Fin p_052) 3 (Fin q_hi) = Fin (552104530540069 / 2 ^ 50)
   \<and> 0 \<le> q_lo \<and> q_lo < q_hi \<and> q_hi \<le> 1
   \<and> (552104530540069 / 2 ^ 50 :: real) < 8833672488641105 / 2 ^ 54"
  using F_z_at_q_lo F_z_at_q_hi by (simp add: q_lo_def q_hi_def)

end
